theory Spec2Isabelle
  imports Main "HOL-Library.Word" "HOL-Library.Monad_Syntax"
begin

unbundle bit_operations_syntax

section \<open>REP, a long-range LZ77 preprocessor (Compression/REP/rep.cpp)\<close>

text \<open>
  This theory embeds the encoder and the decoder helpers of \<^verbatim>\<open>rep.cpp\<close> in HOL and
  proves properties of them. Conventions:

  \<^item> Bytes are \<open>8 word\<close>. The rolling hash is an \<^verbatim>\<open>int\<close> whose arithmetic is
    meant to wrap at 32 bits; it is a \<open>32 word\<close>, read as a signed number (\<open>sint\<close>)
    where the source shifts or masks it.
  \<^item> Buffer positions, lengths and table entries are the \<^verbatim>\<open>int\<close> variables of the
    source, which it subtracts freely; they are HOL integers. Values are taken to fit
    their C type: overflow of positions is outside the model.
  \<^item> A result \<open>None\<close> means that the C program has no defined result on that input: it
    reads or writes outside the filled part of a buffer, divides by zero, shifts by more
    than the width, or loops for ever. Error returns of the source are values of
    \<open>errcode\<close>.
  \<^item> The read callback is a reader over the input sequence: asked for \<open>n\<close> bytes it
    delivers the next \<open>min n remaining\<close> bytes, and \<open>0\<close> at the end. The write callback
    appends to the output stream and does not fail.
\<close>

type_synonym byte = "8 word"
type_synonym u32 = "32 word"

subsection \<open>Helpers of the source\<close>

text \<open>
  \<open>rd\<close> is a read of one byte of a buffer of which the list holds the bytes written so
  far; a read outside it has no defined value.
\<close>

definition rd :: "byte list \<Rightarrow> int \<Rightarrow> byte option" where
  "rd buf i = (if 0 \<le> i \<and> i < int (length buf) then Some (buf ! nat i) else None)"

definition rd_range :: "byte list \<Rightarrow> int \<Rightarrow> int \<Rightarrow> byte list option" where
  "rd_range buf ofs n =
     (if 0 \<le> ofs \<and> 0 \<le> n \<and> ofs + n \<le> int (length buf)
      then Some (take (nat n) (drop (nat ofs) buf)) else None)"

text \<open>
  \<^verbatim>\<open>power (base, n)\<close>: \<^verbatim>\<open>for (result=1; n != 0; result *= base, n--);\<close> in 32-bit
  arithmetic.
\<close>

fun power_loop :: "u32 \<Rightarrow> u32 \<Rightarrow> nat \<Rightarrow> u32" where
  "power_loop result base 0 = result"
| "power_loop result base (Suc n) = power_loop (result * base) base n"

definition power_u :: "u32 \<Rightarrow> nat \<Rightarrow> u32" where
  "power_u base n = power_loop 1 base n"

text \<open>
  \<^verbatim>\<open>sqrtb (n, base = 2)\<close>: \<^verbatim>\<open>for (result=1; (n/=base*base) != 0; result *= base);\<close>.
  The only call of the source leaves \<open>base\<close> at its default.
\<close>

function sqrtb_loop :: "nat \<Rightarrow> nat \<Rightarrow> nat" where
  "sqrtb_loop result n =
     (let n' = n div (2 * 2) in if n' \<noteq> 0 then sqrtb_loop (result * 2) n' else result)"
  by pat_completeness auto
termination
  by (relation "measure snd") auto

declare sqrtb_loop.simps [simp del]

definition sqrtb :: "nat \<Rightarrow> nat" where
  "sqrtb n = sqrtb_loop 1 n"

text \<open>
  \<^verbatim>\<open>find_match_start (p, q, start)\<close>:
  \<^verbatim>\<open>while (q>start) if (*--p != *--q) return q+1; return q;\<close> and
  \<^verbatim>\<open>find_match_end (p, q, end)\<close>: \<^verbatim>\<open>while (q<end && *p==*q) p++,q++; return q;\<close>.
  Pointers into the working buffer are positions in it.
\<close>

function find_match_start :: "byte list \<Rightarrow> int \<Rightarrow> int \<Rightarrow> int \<Rightarrow> int option" where
  "find_match_start buf p q start =
     (if q > start then
        (case rd buf (p - 1) of
           None \<Rightarrow> None
         | Some a \<Rightarrow>
             (case rd buf (q - 1) of
                None \<Rightarrow> None
              | Some b \<Rightarrow> if a \<noteq> b then Some q else find_match_start buf (p - 1) (q - 1) start))
      else Some q)"
  by pat_completeness auto
termination
  by (relation "measure (\<lambda>(buf, p, q, start). nat (q - start))") auto

declare find_match_start.simps [simp del]

function find_match_end :: "byte list \<Rightarrow> int \<Rightarrow> int \<Rightarrow> int \<Rightarrow> int option" where
  "find_match_end buf p q end' =
     (if q < end' then
        (case rd buf p of
           None \<Rightarrow> None
         | Some a \<Rightarrow>
             (case rd buf q of
                None \<Rightarrow> None
              | Some b \<Rightarrow> if a = b then find_match_end buf (p + 1) (q + 1) end' else Some q))
      else Some q)"
  by pat_completeness auto
termination
  by (relation "measure (\<lambda>(buf, p, q, end'). nat (end' - q))") auto

declare find_match_end.simps [simp del]

text \<open>
  \<^verbatim>\<open>memcpy_lz_match (byte* p, byte* q, unsigned len)\<close> is
  \<^verbatim>\<open>if (len) do *p++ = *q++; while (--len);\<close>. Here memory is a store from
  addresses to bytes, so that source and destination may overlap in it, and \<open>len\<close> is
  the unsigned counter of the source. The \<^verbatim>\<open>do ... while (--len)\<close> loop is
  \<open>memcpy_loop\<close>; it ends because the counter, decremented before the test, reaches 0.
\<close>

function memcpy_loop :: "(nat \<Rightarrow> byte) \<Rightarrow> nat \<Rightarrow> nat \<Rightarrow> u32 \<Rightarrow> (nat \<Rightarrow> byte)" where
  "memcpy_loop mem p q len =
     (let mem' = mem(p := mem q); len' = len - 1
      in if len' \<noteq> 0 then memcpy_loop mem' (p + 1) (q + 1) len' else mem')"
  by pat_completeness auto
termination
proof (relation "measure (\<lambda>(mem, p, q, len). unat (len - 1))", goal_cases)
  case 1 show ?case by simp
next
  case (2 mem p q len mem' len')
  then have nz: "len - 1 \<noteq> 0" by simp
  then have "unat (len - 1 - 1) = unat (len - 1) - 1"
    by (rule unat_minus_one)
  moreover from nz have "unat (len - 1) \<noteq> 0"
    by (simp add: unat_eq_0)
  ultimately show ?case using 2 by simp
qed

declare memcpy_loop.simps [simp del]

definition memcpy_lz_match :: "(nat \<Rightarrow> byte) \<Rightarrow> nat \<Rightarrow> nat \<Rightarrow> u32 \<Rightarrow> (nat \<Rightarrow> byte)" where
  "memcpy_lz_match mem p q len = (if len \<noteq> 0 then memcpy_loop mem p q len else mem)"

definition zero_mem :: "nat \<Rightarrow> byte" where
  "zero_mem a = 0"

text \<open>
  \<^verbatim>\<open>Put32 (x)\<close> stores the \<^verbatim>\<open>int32\<close> in memory and writes its four bytes; the
  source notes that this is for Intel byte order only, so the bytes are little-endian.
\<close>

definition put32 :: "int \<Rightarrow> byte list" where
  "put32 x = (let w = (word_of_int x :: u32)
              in [ucast w, ucast (drop_bit 8 w), ucast (drop_bit 16 w), ucast (drop_bit 24 w)])"

text \<open>
  The loop that writes the literal runs of a block:
  \<^verbatim>\<open>while (!dataOffsets.eof()) FWRITE (buf + dataOffsets.get32(), datalens.get32());\<close>
\<close>

fun write_literals :: "byte list \<Rightarrow> int list \<Rightarrow> int list \<Rightarrow> byte list option" where
  "write_literals buf [] dls = Some []"
| "write_literals buf (ofs # ofss) [] = None"
| "write_literals buf (ofs # ofss) (dl # dls) =
     do { bytes \<leftarrow> rd_range buf ofs dl;
          rest \<leftarrow> write_literals buf ofss dls;
          Some (bytes @ rest) }"

subsection \<open>Parts of the repository that the source file uses and does not define\<close>

text \<open>
  \<^verbatim>\<open>mymin\<close> and \<^verbatim>\<open>mymax\<close> are \<open>min\<close> and \<open>max\<close>.
\<close>

text \<open>
  Modelled from the spec: the constant \<^verbatim>\<open>MAX_READ = 8*mb\<close>, whose unit \<^verbatim>\<open>mb\<close> is
  declared in a header that is not part of the sources. The specification gives the read
  limit as 8 MiB.
\<close>

definition MAX_READ :: int where
  "MAX_READ = 8 * 1048576"

text \<open>
  Modelled from the spec: \<^verbatim>\<open>roundup_to_power_of (n, 2)\<close>, declared in a header that is
  not part of the sources. The specification describes its result as \<open>n\<close> rounded up
  to a power of two; the least power of two that is at least \<open>n\<close> is computed by
  halving.
\<close>

function roundup_to_power_of2 :: "nat \<Rightarrow> nat" where
  "roundup_to_power_of2 n = (if n \<le> 1 then 1 else 2 * roundup_to_power_of2 ((n + 1) div 2))"
  by pat_completeness auto
termination
  by (relation "measure id") auto

declare roundup_to_power_of2.simps [simp del]

text \<open>
  \<^verbatim>\<open>CalcHashSize\<close>:
  \<^verbatim>\<open>HashBits>0? (1<<HashBits) : roundup_to_power_of(BlockSize/3*2,2) / mymax(k,16)\<close>.
\<close>

definition CalcHashSize :: "nat \<Rightarrow> nat \<Rightarrow> nat \<Rightarrow> nat" where
  "CalcHashSize HashBits BlockSize k =
     (if HashBits > 0 then 2 ^ HashBits
      else roundup_to_power_of2 (BlockSize div 3 * 2) div max k 16)"

subsection \<open>Rolling hash\<close>

text \<open>
  \<^verbatim>\<open>#define update_hash(sub,add) { hash = hash*PRIME + add - sub*cPOWER_PRIME_L; }\<close>
  with \<^verbatim>\<open>PRIME 153191\<close>. The bytes are promoted to \<^verbatim>\<open>int\<close>.
\<close>

definition PRIME :: u32 where
  "PRIME = 153191"

definition update_hash :: "u32 \<Rightarrow> u32 \<Rightarrow> byte \<Rightarrow> byte \<Rightarrow> u32" where
  "update_hash cPOWER_PRIME_L hash sub add = hash * PRIME + ucast add - ucast sub * cPOWER_PRIME_L"

text \<open>
  The initialisation \<^verbatim>\<open>for (int i=0; i < n; i++) update_hash (0, buf[i]);\<close>, one
  advance \<^verbatim>\<open>update_hash (buf[i], buf[i+L])\<close>, and the loop of the source that
  advances over several bytes,
  \<^verbatim>\<open>for (int j=0; j<k; j++, i++) update_hash (buf[i], buf[i+L]);\<close>.
\<close>

fun hash_init :: "u32 \<Rightarrow> byte list \<Rightarrow> nat \<Rightarrow> int \<Rightarrow> u32 \<Rightarrow> u32 option" where
  "hash_init cP buf 0 i hash = Some hash"
| "hash_init cP buf (Suc n) i hash =
     (case rd buf i of
        None \<Rightarrow> None
      | Some b \<Rightarrow> hash_init cP buf n (i + 1) (update_hash cP hash 0 b))"

definition hash_step :: "u32 \<Rightarrow> int \<Rightarrow> byte list \<Rightarrow> int \<Rightarrow> u32 \<Rightarrow> u32 option" where
  "hash_step cP L buf i hash =
     (case rd buf i of
        None \<Rightarrow> None
      | Some sub \<Rightarrow>
          (case rd buf (i + L) of
             None \<Rightarrow> None
           | Some add \<Rightarrow> Some (update_hash cP hash sub add)))"

fun hash_advance :: "u32 \<Rightarrow> int \<Rightarrow> byte list \<Rightarrow> nat \<Rightarrow> int \<Rightarrow> u32 \<Rightarrow> (int \<times> u32) option" where
  "hash_advance cP L buf 0 i hash = Some (i, hash)"
| "hash_advance cP L buf (Suc n) i hash =
     (case hash_step cP L buf i hash of
        None \<Rightarrow> None
      | Some hash' \<Rightarrow> hash_advance cP L buf n (i + 1) hash')"



subsection \<open>The encoder: parameters and state\<close>

text \<open>
  Return codes of \<^verbatim>\<open>rep_compress\<close>: success, the code returned when an
  allocation fails, and a negative result of the read callback passed on as it is.
\<close>

datatype errcode = FREEARC_OK | FREEARC_ERRCODE_NOT_ENOUGH_MEMORY | CallbackError int

text \<open>
  The arguments of \<^verbatim>\<open>rep_compress\<close> (\<open>BlockSize\<close> is \<^verbatim>\<open>unsigned\<close>), and
  the values that it derives from them before its main loop. In \<open>cfg\<close> the field
  \<open>SmallestLen\<close> holds the value after the first statement of the function,
  \<^verbatim>\<open>if (SmallestLen>MinMatchLen) SmallestLen=MinMatchLen;\<close>.
\<close>

record params =
  BlockSize :: nat
  MinCompression :: int
  MinMatchLen :: int
  Barrier :: int
  SmallestLen :: int
  HashBits :: int
  Amplifier :: int

record cfg = params +
  L :: int
  k :: int
  k1 :: int
  test :: int
  cPOWER_PRIME_L :: u32
  HashSize :: int
  HashMask :: int

text \<open>
  Three logs are added to the state of the encoder; they are written and never read.
  \<open>mlog\<close>, emptied with the staging arrays at the start of a cycle, receives one
  entry wherever the source emits a match (the scan position, the candidate taken from
  the hash table, the bounds found, \<^verbatim>\<open>last_match\<close> before the emission and
  \<^verbatim>\<open>Base+Size\<close>); \<open>ilog\<close> one entry wherever it writes to \<^verbatim>\<open>hasharr\<close> (the
  position and the checksum); \<open>blog\<close> one entry for each block written (the staging
  arrays as they are written, the cycle's entries of \<open>mlog\<close>, \<^verbatim>\<open>last_match\<close> at
  the start of the cycle and after the last literal run, and \<^verbatim>\<open>Base\<close> after the
  cycle's bytes were added).
\<close>

record match_ev =
  ev_i :: int
  ev_match :: int
  ev_start :: int
  ev_end :: int
  ev_last_match :: int
  ev_limit :: int

record block_ev =
  blk_first :: int
  blk_events :: "match_ev list"
  blk_lens :: "int list"
  blk_offsets :: "int list"
  blk_datalens :: "int list"
  blk_dataOffsets :: "int list"
  blk_last :: int
  blk_Base :: int

record rep_state =
  buf :: "byte list"
  hasharr :: "int list"
  hash :: u32
  Base :: int
  last_i :: int
  last_match :: int
  literals :: int
  lens :: "int list"
  offsets :: "int list"
  datalens :: "int list"
  dataOffsets :: "int list"
  out :: "byte list"
  mlog :: "match_ev list"
  ilog :: "(int \<times> int) list"
  blog :: "block_ev list"

text \<open>
  C division truncates towards zero. \<open>derive\<close> is the head of \<^verbatim>\<open>rep_compress\<close>:
  \<^verbatim>\<open>L = roundup_to_power_of (SmallestLen/2, 2)\<close>, \<^verbatim>\<open>k = sqrtb(L*2)\<close>,
  \<^verbatim>\<open>k1=k-1\<close>, \<^verbatim>\<open>test=mymin(k*Amplifier,L)\<close>,
  \<^verbatim>\<open>cPOWER_PRIME_L = power(PRIME,L)\<close>, and the size and mask of the hash table, which
  the source computes in its first cycle.
\<close>

definition tdiv :: "int \<Rightarrow> int \<Rightarrow> int" where
  "tdiv a b = sgn a * sgn b * (\<bar>a\<bar> div \<bar>b\<bar>)"

definition derive :: "params \<Rightarrow> cfg" where
  "derive p =
     (let SmallestLen' = (if SmallestLen p > MinMatchLen p then MinMatchLen p else SmallestLen p);
          L' = int (roundup_to_power_of2 (nat (take_bit 32 (tdiv SmallestLen' 2))));
          k' = int (sqrtb (nat (L' * 2)));
          HashSize' = int (CalcHashSize (nat (HashBits p)) (BlockSize p) (nat k'))
      in params.extend (p\<lparr>SmallestLen := SmallestLen'\<rparr>)
           \<lparr>L = L', k = k', k1 = k' - 1, test = min (k' * Amplifier p) L',
            cPOWER_PRIME_L = power_u PRIME (nat L'),
            HashSize = HashSize', HashMask = HashSize' - 1\<rparr>)"

subsection \<open>The encoder: hash table and match finder\<close>

text \<open>
  \<^verbatim>\<open>#define chksum ((hash>>28)&k1)\<close> and the slot \<^verbatim>\<open>hash&HashMask\<close>, on the
  signed value of the hash. \<open>hash_get\<close> is the read \<^verbatim>\<open>hasharr[hash&HashMask]\<close>,
  \<open>hash_put\<close> the write \<^verbatim>\<open>hasharr[hash&HashMask] = i + chksum\<close>.
\<close>

definition chksum :: "cfg \<Rightarrow> u32 \<Rightarrow> int" where
  "chksum c h = drop_bit 28 (sint h) AND k1 c"

definition hash_slot :: "cfg \<Rightarrow> u32 \<Rightarrow> int" where
  "hash_slot c h = sint h AND HashMask c"

definition hash_get :: "cfg \<Rightarrow> rep_state \<Rightarrow> int option" where
  "hash_get c s =
     (let j = hash_slot c (hash s)
      in if 0 \<le> j \<and> j < int (length (hasharr s)) then Some (hasharr s ! nat j) else None)"

definition hash_put :: "cfg \<Rightarrow> int \<Rightarrow> rep_state \<Rightarrow> rep_state option" where
  "hash_put c i s =
     (let j = hash_slot c (hash s)
      in if 0 \<le> j \<and> j < int (length (hasharr s))
         then Some (s\<lparr>hasharr := (hasharr s)[nat j := i + chksum c (hash s)],
                      ilog := ilog s @ [(i, chksum c (hash s))]\<rparr>)
         else None)"

text \<open>
  \<open>roll\<close> is the statement \<^verbatim>\<open>update_hash (buf[i], buf[i+L])\<close> on the state.
\<close>

definition roll :: "cfg \<Rightarrow> int \<Rightarrow> rep_state \<Rightarrow> rep_state option" where
  "roll c i s =
     do { h \<leftarrow> hash_step (cPOWER_PRIME_L c) (L c) (buf s) i (hash s);
          Some (s\<lparr>hash := h\<rparr>) }"

text \<open>
  \<open>probe\<close> is the body of \<^verbatim>\<open>if (i>=last_match) { ... }\<close> in the inner loop, up
  to the label \<^verbatim>\<open>no_match\<close>; \<open>lim\<close> is \<^verbatim>\<open>Base+Size\<close>.
\<close>

definition probe :: "cfg \<Rightarrow> int \<Rightarrow> int \<Rightarrow> rep_state \<Rightarrow> rep_state option" where
  "probe c lim i s =
     (if i \<ge> last_match s then
        do { match0 \<leftarrow> hash_get c s;
             if match0 \<noteq> 0 \<and> chksum c (hash s) = (match0 AND k1 c) then
               (let match = match0 AND NOT (k1 c) in
                if match \<ge> i \<and> match < lim then Some s
                else
                  (let LowBound = (if match < i then i - match
                                   else if match - lim > i then 0
                                   else i - (match - lim));
                       HighBound = int (BlockSize c) - match + i
                   in do { start \<leftarrow> find_match_start (buf s) match i (max (last_match s) LowBound);
                           end' \<leftarrow> find_match_end (buf s) match i (min lim HighBound);
                           if end' - start \<ge> (if i - match < Barrier c then MinMatchLen c else SmallestLen c)
                           then
                             (let offset = (if i - match < 0 then i - match + int (BlockSize c)
                                            else i - match)
                              in Some (s\<lparr>dataOffsets := dataOffsets s @ [last_match s],
                                          datalens := datalens s @ [start - last_match s],
                                          offsets := offsets s @ [offset],
                                          lens := lens s @ [end' - start],
                                          literals := literals s + (start - last_match s),
                                          last_match := end',
                                          mlog := mlog s @
                                            [\<lparr>ev_i = i, ev_match = match, ev_start = start,
                                              ev_end = end', ev_last_match = last_match s,
                                              ev_limit = lim\<rparr>]\<rparr>))
                           else Some s }))
             else Some s }
      else Some s)"

text \<open>
  One iteration of \<^verbatim>\<open>for (int j=0; j<test; j++, i++)\<close>: the probe, the insertion
  \<^verbatim>\<open>if ((i&k1) == 0) hasharr[hash&HashMask] = i + chksum;\<close> and the advance of the
  hash. \<open>probe_loop\<close> is the loop, counted down from \<^verbatim>\<open>test\<close>.
\<close>

definition step :: "cfg \<Rightarrow> int \<Rightarrow> int \<Rightarrow> rep_state \<Rightarrow> rep_state option" where
  "step c lim i s =
     do { s1 \<leftarrow> probe c lim i s;
          s2 \<leftarrow> (if (i AND k1 c) = 0 then hash_put c i s1 else Some s1);
          roll c i s2 }"

fun probe_loop :: "cfg \<Rightarrow> int \<Rightarrow> nat \<Rightarrow> int \<Rightarrow> rep_state \<Rightarrow> (int \<times> rep_state) option" where
  "probe_loop c lim 0 i s = Some (i, s)"
| "probe_loop c lim (Suc n) i s = do { s' \<leftarrow> step c lim i s; probe_loop c lim n (i + 1) s' }"

text \<open>
  The second inner loop,
  \<^verbatim>\<open>while ((i&(L-1)) != 0) { hasharr[hash&HashMask] = i + chksum;
    for (int j=0; j<k; j++, i++) update_hash (buf[i], buf[i+L]); }\<close>,
  and the scan \<^verbatim>\<open>for (int i=last_i; i+L*2 < Base+Size; last_i=i)\<close>, whose variable
  \<open>i\<close> is \<open>last_i\<close> at every test of the condition. Neither loop has a bound in the
  source, so both are partial functions.
\<close>

definition roll_loop :: "cfg \<Rightarrow> nat \<Rightarrow> int \<Rightarrow> rep_state \<Rightarrow> (int \<times> rep_state) option" where
  "roll_loop c n i s =
     do { (i', h) \<leftarrow> hash_advance (cPOWER_PRIME_L c) (L c) (buf s) n i (hash s);
          Some (i', s\<lparr>hash := h\<rparr>) }"

partial_function (option) skip_loop :: "cfg \<Rightarrow> int \<Rightarrow> rep_state \<Rightarrow> (int \<times> rep_state) option" where
  "skip_loop c i s =
     (if (i AND (L c - 1)) \<noteq> 0 then
        do { s1 \<leftarrow> hash_put c i s;
             (i', s2) \<leftarrow> roll_loop c (nat (k c)) i s1;
             skip_loop c i' s2 }
      else Some (i, s))"

declare skip_loop.simps [code]

partial_function (option) scan_loop :: "cfg \<Rightarrow> int \<Rightarrow> rep_state \<Rightarrow> rep_state option" where
  "scan_loop c lim s =
     (if last_i s + L c * 2 < lim then
        do { (i1, s1) \<leftarrow> probe_loop c lim (nat (test c)) (last_i s) s;
             (i2, s2) \<leftarrow> skip_loop c i1 s1;
             scan_loop c lim (s2\<lparr>last_i := i2\<rparr>) }
      else Some s)"

declare scan_loop.simps [code]

subsection \<open>The encoder: cycles and framing\<close>

text \<open>
  \<open>block_end\<close> is the rest of a cycle after the scan: \<^verbatim>\<open>Base += Size\<close>, the last
  literal run (or the empty entry of \<^verbatim>\<open>datalens\<close>), the reset when the buffer is
  full, and the block written to the output. \<open>first\<close> is \<^verbatim>\<open>last_match\<close> at the
  start of the cycle, kept for the log.
\<close>

definition block_end :: "cfg \<Rightarrow> int \<Rightarrow> int \<Rightarrow> rep_state \<Rightarrow> rep_state option" where
  "block_end c Size first s =
     (let s1 = s\<lparr>Base := Base s + Size\<rparr>;
          s2 = (if Base s1 = int (BlockSize c) then s1\<lparr>last_i := Base s1\<rparr> else s1);
          s3 = (if last_match s2 > last_i s2
                then s2\<lparr>datalens := datalens s2 @ [0]\<rparr>
                else s2\<lparr>dataOffsets := dataOffsets s2 @ [last_match s2],
                        datalens := datalens s2 @ [last_i s2 - last_match s2],
                        literals := literals s2 + (last_i s2 - last_match s2),
                        last_match := last_i s2\<rparr>);
          ev = \<lparr>blk_first = first, blk_events = mlog s3, blk_lens = lens s3, blk_offsets = offsets s3,
                 blk_datalens = datalens s3, blk_dataOffsets = dataOffsets s3,
                 blk_last = last_match s3, blk_Base = Base s3\<rparr>;
          s4 = (if Base s3 = int (BlockSize c)
                then s3\<lparr>Base := 0, last_match := 0, last_i := 0\<rparr> else s3);
          outsize = 4 * 2 + 4 * int (length (lens s4)) + 4 * int (length (offsets s4))
                      + 4 * int (length (datalens s4)) + literals s4
      in do { lits \<leftarrow> write_literals (buf s4) (dataOffsets s4) (datalens s4);
              Some (s4\<lparr>out := out s4 @ put32 (outsize - 4) @ put32 (int (length (lens s4)))
                             @ concat (map put32 (lens s4)) @ concat (map put32 (offsets s4))
                             @ concat (map put32 (datalens s4)) @ lits,
                          blog := blog s4 @ [ev]\<rparr>) })"

text \<open>
  The number of bytes that the read callback returns in a cycle, and the buffer after it
  has stored them at \<^verbatim>\<open>buf+Base\<close>.
\<close>

definition read_size :: "cfg \<Rightarrow> bool \<Rightarrow> byte list \<Rightarrow> rep_state \<Rightarrow> int" where
  "read_size c FirstTime input s =
     min (min (int (BlockSize c) - Base s)
              (if FirstTime then MAX_READ else min (int (BlockSize c div 8)) MAX_READ))
         (int (length input))"

definition load :: "byte list \<Rightarrow> int \<Rightarrow> int \<Rightarrow> rep_state \<Rightarrow> rep_state" where
  "load input Size pos s =
     s\<lparr>buf := take (nat pos) (buf s) @ take (nat Size) input @ drop (nat (pos + Size)) (buf s)\<rparr>"

text \<open>
  \<open>cycle\<close> is the body of the main loop once a cycle has read \<open>Size > 0\<close> bytes: the
  hash is initialised when \<^verbatim>\<open>Base==0\<close>, the staging arrays are emptied, the buffer
  is scanned and the block is written.
\<close>

definition cycle :: "cfg \<Rightarrow> int \<Rightarrow> rep_state \<Rightarrow> rep_state option" where
  "cycle c Size s1 =
     do { s2 \<leftarrow> (if Base s1 = 0
                 then map_option (\<lambda>h. s1\<lparr>hash := h\<rparr>)
                        (hash_init (cPOWER_PRIME_L c) (buf s1) (nat (min (L c) Size)) 0 0)
                 else Some s1);
          s3 \<leftarrow> scan_loop c (Base s2 + Size)
                  (s2\<lparr>literals := 0, lens := [], offsets := [], datalens := [],
                      dataOffsets := [], mlog := []\<rparr>);
          block_end c Size (last_match s2) s3 }"

text \<open>
  The loop \<^verbatim>\<open>for (int FirstTime=1; ; FirstTime=0)\<close>. It returns the error code with
  which it was left and the state. \<open>alloc n\<close> tells whether \<^verbatim>\<open>BigAlloc (n)\<close>
  succeeds. A shift \<^verbatim>\<open>1<<HashBits\<close> by a negative count or by 31 and more has no
  defined value.
\<close>

function rep_cycles ::
  "(int \<Rightarrow> bool) \<Rightarrow> cfg \<Rightarrow> bool \<Rightarrow> byte list \<Rightarrow> rep_state \<Rightarrow> (errcode \<times> rep_state) option" where
  "rep_cycles alloc c FirstTime input s =
     (let Size = read_size c FirstTime input s;
          s0 = load input Size (Base s) s
      in if Size < 0 then Some (CallbackError Size, s)
         else if FirstTime \<and> (HashBits c < 0 \<or> 31 \<le> HashBits c) then None
         else if FirstTime \<and> HashSize c \<noteq> 0 \<and> \<not> alloc (HashSize c * 4)
         then Some (FREEARC_ERRCODE_NOT_ENOUGH_MEMORY, s0)
         else
           (let s1 = (if FirstTime
                      then s0\<lparr>hasharr := replicate (nat (HashSize c)) 0,
                              out := out s0 @ put32 (int (BlockSize c))\<rparr>
                      else s0)
            in if Size = 0 then Some (FREEARC_OK, s1)
               else
                 do { s4 \<leftarrow> cycle c Size s1;
                      rep_cycles alloc c False (drop (nat Size) input) s4 }))"
  by pat_completeness auto
termination
proof (relation "measure (\<lambda>(alloc, c, FirstTime, input, s). length input)", goal_cases)
  case 1
  show ?case by simp
next
  case (2 alloc c FirstTime input s Size s0 s1 s4)
  from \<open>Size \<noteq> 0\<close> \<open>\<not> Size < 0\<close> have "0 < Size" by arith
  moreover from \<open>Size = read_size c FirstTime input s\<close> have "Size \<le> int (length input)"
    by (simp add: read_size_def)
  ultimately show ?case by simp
qed

declare rep_cycles.simps [simp del]

text \<open>
  \<open>finish\<close> writes the last block and the end mark. \<open>rep_compress_run\<close> is
  \<^verbatim>\<open>rep_compress\<close> with the final state as its result, \<open>rep_compress\<close> keeps the
  return code and the output stream. The size of the staging buffers,
  \<^verbatim>\<open>(mymin(BlockSize,MAX_READ)/SmallestLen+1) * sizeof(int32)\<close>, is a division by
  \<^verbatim>\<open>SmallestLen\<close>; the staging buffers themselves are lists.
\<close>

definition init_state :: rep_state where
  "init_state = \<lparr>buf = [], hasharr = [], hash = 0, Base = 0, last_i = 0, last_match = 0,
                  literals = 0, lens = [], offsets = [], datalens = [], dataOffsets = [],
                  out = [], mlog = [], ilog = [], blog = []\<rparr>"

definition finish :: "rep_state \<Rightarrow> rep_state option" where
  "finish s =
     (let datalen = Base s - last_match s
      in do { tail \<leftarrow> rd_range (buf s) (last_match s) datalen;
              Some (s\<lparr>out := out s @ put32 (4 * 2 + datalen) @ put32 0 @ put32 datalen
                             @ tail @ put32 0\<rparr>) })"

definition rep_compress_run ::
  "(int \<Rightarrow> bool) \<Rightarrow> params \<Rightarrow> byte list \<Rightarrow> (errcode \<times> rep_state) option" where
  "rep_compress_run alloc p input =
     (let c = derive p
      in if \<not> alloc (int (BlockSize p)) then Some (FREEARC_ERRCODE_NOT_ENOUGH_MEMORY, init_state)
         else if SmallestLen c = 0 then None
         else
           do { (e, s) \<leftarrow> rep_cycles alloc c True input init_state;
                if e = FREEARC_OK then map_option (Pair FREEARC_OK) (finish s)
                else Some (e, s) })"

definition rep_compress ::
  "(int \<Rightarrow> bool) \<Rightarrow> params \<Rightarrow> byte list \<Rightarrow> (errcode \<times> byte list) option" where
  "rep_compress alloc p input = map_option (\<lambda>(e, s). (e, out s)) (rep_compress_run alloc p input)"

text \<open>
  The argument list of \<^verbatim>\<open>rep_compress\<close> as a record, and an allocator that always
  succeeds.
\<close>

definition mkparams :: "nat \<Rightarrow> int \<Rightarrow> int \<Rightarrow> int \<Rightarrow> int \<Rightarrow> int \<Rightarrow> int \<Rightarrow> params" where
  "mkparams bs mc ml ba sl hb am = \<lparr>BlockSize = bs, MinCompression = mc, MinMatchLen = ml, Barrier = ba,
     SmallestLen = sl, HashBits = hb, Amplifier = am\<rparr>"

definition alloc_ok :: "int \<Rightarrow> bool" where
  "alloc_ok n = True"

subsection \<open>What the logs are checked against\<close>

text \<open>
  The offset written for a match, and the conditions of the source under which a match
  is emitted, as a predicate on its log entry: the candidate is not in
  \<open>[i, Base+Size)\<close>, the match lies between \<^verbatim>\<open>last_match\<close> and \<^verbatim>\<open>Base+Size\<close>
  and contains no byte before its start or after its end, and it is long enough for its
  distance.
\<close>

definition ev_offset :: "cfg \<Rightarrow> match_ev \<Rightarrow> int" where
  "ev_offset c e =
     (if ev_i e - ev_match e < 0 then ev_i e - ev_match e + int (BlockSize c)
      else ev_i e - ev_match e)"

definition ev_ok :: "cfg \<Rightarrow> int \<Rightarrow> match_ev \<Rightarrow> bool" where
  "ev_ok c lim e =
     (ev_limit e = lim
      \<and> \<not> (ev_i e \<le> ev_match e \<and> ev_match e < lim)
      \<and> ev_last_match e \<le> ev_start e \<and> ev_start e \<le> ev_i e
      \<and> ev_i e \<le> ev_end e \<and> ev_end e \<le> lim
      \<and> (if ev_i e - ev_match e < Barrier c then MinMatchLen c else SmallestLen c)
            \<le> ev_end e - ev_start e)"

text \<open>
  A sequence of matches is linked from a position when each starts its literal run where
  the one before it ended; \<open>chain_end\<close> is where the last one ends.
\<close>

fun linked :: "int \<Rightarrow> match_ev list \<Rightarrow> bool" where
  "linked pos [] = True"
| "linked pos (e # es) = (ev_last_match e = pos \<and> linked (ev_end e) es)"

fun chain_end :: "int \<Rightarrow> match_ev list \<Rightarrow> int" where
  "chain_end pos [] = pos"
| "chain_end pos (e # es) = chain_end (ev_end e) es"

text \<open>
  A block of the log is well formed when its arrays are the matches of its cycle, in
  order and linked from the position where the cycle started, followed by one more
  entry of \<^verbatim>\<open>datalens\<close>: either an empty one without an offset, the last match
  reaching beyond the scan, or the literal run from the end of the last match to the
  end of the scan.
\<close>

definition block_ok :: "cfg \<Rightarrow> block_ev \<Rightarrow> bool" where
  "block_ok c b =
     (let es = blk_events b; n = length es; lm = chain_end (blk_first b) es
      in blk_lens b = map (\<lambda>e. ev_end e - ev_start e) es
         \<and> blk_offsets b = map (ev_offset c) es
         \<and> take n (blk_datalens b) = map (\<lambda>e. ev_start e - ev_last_match e) es
         \<and> take n (blk_dataOffsets b) = map ev_last_match es
         \<and> length (blk_datalens b) = n + 1
         \<and> linked (blk_first b) es
         \<and> list_all (ev_ok c (blk_Base b)) es
         \<and> (length (blk_dataOffsets b) = n \<and> blk_datalens b ! n = 0 \<and> blk_last b = lm
              \<or> length (blk_dataOffsets b) = n + 1 \<and> blk_dataOffsets b ! n = lm
                  \<and> blk_datalens b ! n = blk_last b - lm \<and> lm \<le> blk_last b)
         \<and> blk_first b \<le> blk_last b \<and> blk_last b \<le> blk_Base b
         \<and> blk_Base b \<le> int (BlockSize c))"

text \<open>
  The blocks of a run are linked when each starts where the one before it ended, or at
  \<open>0\<close> after a block that filled the buffer, which ends at \<open>BlockSize\<close>.
\<close>

fun blocks_linked :: "cfg \<Rightarrow> int \<Rightarrow> block_ev list \<Rightarrow> bool" where
  "blocks_linked c pos [] = True"
| "blocks_linked c pos (b # bs) =
     (blk_first b = pos
      \<and> (if blk_Base b = int (BlockSize c)
          then blk_last b = int (BlockSize c) \<and> blocks_linked c 0 bs
          else blocks_linked c (blk_last b) bs))"

fun blocks_end :: "cfg \<Rightarrow> int \<Rightarrow> block_ev list \<Rightarrow> int" where
  "blocks_end c pos [] = pos"
| "blocks_end c pos (b # bs) =
     blocks_end c (if blk_Base b = int (BlockSize c) then 0 else blk_last b) bs"

text \<open>
  A write to the hash table packs position and checksum when the position is a multiple
  of \<open>k\<close>, the sum is the bitwise or, and the masks give both parts back.
\<close>

definition ins_ok :: "cfg \<Rightarrow> int \<times> int \<Rightarrow> bool" where
  "ins_ok c ic =
     (case ic of (i, chk) \<Rightarrow>
        i mod k c = 0 \<and> i AND k1 c = 0 \<and> i + chk = i OR chk
        \<and> (i + chk) AND NOT (k1 c) = i \<and> (i + chk) AND k1 c = chk)"

subsection \<open>Invariants of the encoder\<close>

text \<open>
  The predicates below are used in the proofs only. \<open>staged\<close> relates the staging
  arrays to the matches logged in the cycle; \<open>same_frame\<close> and \<open>scan_frame\<close> say
  which parts of the state a step leaves alone; \<open>cfg_ok\<close> collects what the derived
  values satisfy; \<open>scan_inv\<close> holds during a scan and \<open>cyc_inv\<close> between cycles.
\<close>

definition staged :: "cfg \<Rightarrow> int \<Rightarrow> int \<Rightarrow> rep_state \<Rightarrow> bool" where
  "staged c lim first s =
     (lens s = map (\<lambda>e. ev_end e - ev_start e) (mlog s)
      \<and> offsets s = map (ev_offset c) (mlog s)
      \<and> datalens s = map (\<lambda>e. ev_start e - ev_last_match e) (mlog s)
      \<and> dataOffsets s = map ev_last_match (mlog s)
      \<and> linked first (mlog s)
      \<and> chain_end first (mlog s) = last_match s
      \<and> list_all (ev_ok c lim) (mlog s)
      \<and> literals s = sum_list (datalens s))"

definition same_frame :: "rep_state \<Rightarrow> rep_state \<Rightarrow> bool" where
  "same_frame s s' =
     (buf s' = buf s \<and> Base s' = Base s \<and> last_i s' = last_i s \<and> out s' = out s
      \<and> blog s' = blog s \<and> length (hasharr s') = length (hasharr s))"

definition cfg_ok :: "cfg \<Rightarrow> bool" where
  "cfg_ok c = (\<exists>a b. k c = 2 ^ a \<and> L c = 2 ^ b \<and> a \<le> b \<and> k1 c = k c - 1
                 \<and> k c dvd test c \<and> test c \<le> L c)"

definition scan_inv :: "cfg \<Rightarrow> int \<Rightarrow> int \<Rightarrow> rep_state \<Rightarrow> bool" where
  "scan_inv c lim first s = (staged c lim first s \<and> list_all (ins_ok c) (ilog s))"

definition scan_frame :: "rep_state \<Rightarrow> rep_state \<Rightarrow> bool" where
  "scan_frame s s' =
     (buf s' = buf s \<and> Base s' = Base s \<and> out s' = out s \<and> blog s' = blog s
      \<and> length (hasharr s') = length (hasharr s))"

definition cyc_inv :: "cfg \<Rightarrow> rep_state \<Rightarrow> bool" where
  "cyc_inv c s =
     (list_all (ins_ok c) (ilog s) \<and> list_all (block_ok c) (blog s)
      \<and> blocks_linked c 0 (blog s) \<and> blocks_end c 0 (blog s) = last_match s
      \<and> L c dvd last_i s \<and> last_i s \<le> Base s \<and> last_match s \<le> Base s)"

text \<open>
  An input on which the encoder finds a match: the bytes \<open>1..9\<close> three times and two
  more.
\<close>

definition sample :: "byte list" where
  "sample = [1, 2, 3, 4, 5, 6, 7, 8, 9, 1, 2, 3, 4, 5, 6, 7, 8, 9, 1, 2, 3, 4, 5, 6, 7, 8, 9, 1, 2]"

subsection \<open>Conditions under which the encoder returns\<close>

text \<open>
  \<open>cfg_run\<close> adds to \<open>cfg_ok\<close> that the hash table has a size \<open>2 ^ h\<close> and that
  \<^verbatim>\<open>test\<close> is positive, so that the inner loops advance. \<open>tab_ok\<close> says that every
  entry of the table is \<open>0\<close> or points into the buffer, \<open>buf_ok\<close> that the bytes read
  so far are in the buffer, \<open>run_inv\<close> collects what a scan maintains and \<open>base_inv\<close>
  what holds between two cycles.

  \<open>has_dup X n\<close>: some \<open>n\<close> bytes of \<open>X\<close>, starting at \<open>s\<close>, are a copy of the
  \<open>n\<close> bytes that start \<open>d \<ge> 1\<close> positions earlier. An input has a duplication of
  length at least \<open>n\<close> exactly when it has one of length \<open>n\<close>. \<open>nodup\<close> is its
  absence from the buffer of a state, for \<open>n = SmallestLen\<close>.
\<close>

definition cfg_run :: "cfg \<Rightarrow> bool" where
  "cfg_run c = (cfg_ok c \<and> (\<exists>h. HashSize c = 2 ^ h) \<and> HashMask c = HashSize c - 1
                 \<and> 1 \<le> test c)"

definition tab_ok :: "cfg \<Rightarrow> rep_state \<Rightarrow> bool" where
  "tab_ok c s =
     (int (length (hasharr s)) = HashSize c
      \<and> (\<forall>e\<in>set (hasharr s).
            e = 0 \<or> (0 \<le> (e AND NOT (k1 c)) \<and> (e AND NOT (k1 c)) < int (length (buf s)))))"

definition buf_ok :: "cfg \<Rightarrow> int \<Rightarrow> rep_state \<Rightarrow> bool" where
  "buf_ok c lim s =
     (lim \<le> int (length (buf s)) \<and> int (length (buf s)) \<le> int (BlockSize c)
      \<and> (int (length (buf s)) = lim \<or> int (length (buf s)) = int (BlockSize c)))"

definition has_dup :: "byte list \<Rightarrow> nat \<Rightarrow> bool" where
  "has_dup X n =
     (\<exists>s\<in>{0..length X}. \<exists>d\<in>{1..s}.
        s + n \<le> length X \<and> (\<forall>j\<in>{0..<n}. X ! (s + j) = X ! (s + j - d)))"

definition nodup :: "cfg \<Rightarrow> int \<Rightarrow> rep_state \<Rightarrow> bool" where
  "nodup c lim s =
     (int (length (buf s)) = lim \<and> \<not> has_dup (buf s) (nat (SmallestLen c))
      \<and> 0 < SmallestLen c \<and> SmallestLen c \<le> MinMatchLen c)"

definition run_inv :: "cfg \<Rightarrow> int \<Rightarrow> int \<Rightarrow> rep_state \<Rightarrow> bool" where
  "run_inv c lim first s = (scan_inv c lim first s \<and> tab_ok c s \<and> buf_ok c lim s)"

definition base_inv :: "cfg \<Rightarrow> rep_state \<Rightarrow> bool" where
  "base_inv c s =
     (cyc_inv c s \<and> 0 \<le> last_i s \<and> 0 \<le> last_match s \<and> 0 \<le> Base s
      \<and> Base s \<le> int (length (buf s)) \<and> int (length (buf s)) \<le> int (BlockSize c)
      \<and> (int (length (buf s)) = Base s \<or> int (length (buf s)) = int (BlockSize c)))"

section \<open>Properties\<close>

subsection \<open>The copy routine of the decoder\<close>

text \<open>
  After the loop, a byte of the destination range holds the byte of the original memory
  that lies in the \<open>off\<close> bytes before the destination, at the same position modulo
  \<open>off\<close>; every other byte is unchanged.
\<close>

lemma memcpy_loop_periodic:
  "len \<noteq> 0 \<Longrightarrow> 1 \<le> off \<Longrightarrow> p = q + off \<Longrightarrow>
   memcpy_loop mem p q len x =
     (if p \<le> x \<and> x < p + unat len then mem (q + (x - p) mod off) else mem x)"
proof (induction mem p q len arbitrary: x rule: memcpy_loop.induct)
  case (1 mem p q len)
  have ul: "unat (len - 1) = unat len - 1"
    using "1.prems"(1) by (rule unat_minus_one)
  have pos: "0 < unat len"
    using "1.prems"(1) by (simp add: unat_gt_0)
  show ?case
  proof (cases "len - 1 = 0")
    case True
    then have "unat len = 1" using ul pos by simp
    have "memcpy_loop mem p q len = mem(p := mem q)"
      using True by (subst memcpy_loop.simps) simp
    then show ?thesis
      using \<open>unat len = 1\<close> "1.prems" by auto
  next
    case False
    define mem' where "mem' = mem(p := mem q)"
    have step: "memcpy_loop mem p q len x = memcpy_loop mem' (p + 1) (q + 1) (len - 1) x"
      using False by (simp add: memcpy_loop.simps [of mem p q len] mem'_def)
    have ih: "memcpy_loop mem' (p + 1) (q + 1) (len - 1) x =
        (if p + 1 \<le> x \<and> x < p + 1 + unat (len - 1)
         then mem' (q + 1 + (x - (p + 1)) mod off) else mem' x)"
      using "1.IH" [OF mem'_def refl False False "1.prems"(2)] "1.prems"(3) by simp
    note res = trans [OF step ih]
    show ?thesis
    proof (cases "p + 1 \<le> x \<and> x < p + 1 + unat (len - 1)")
      case inner: True
      define j where "j = x - (p + 1)"
      have xj: "x - p = Suc j" using inner unfolding j_def by arith
      have jm: "j mod off < off" using "1.prems"(2) by simp
      have resj: "memcpy_loop mem p q len x = mem' (q + 1 + j mod off)"
        using inner unfolding j_def by (simp add: res)
      show ?thesis
      proof (cases "Suc (j mod off) = off")
        case True
        then have "q + 1 + j mod off = p" using "1.prems"(3) by simp
        then have "memcpy_loop mem p q len x = mem q"
          by (simp add: resj mem'_def)
        moreover have "Suc j mod off = 0" using True by (simp add: mod_Suc)
        moreover have "p \<le> x \<and> x < p + unat len" using inner ul pos by arith
        ultimately show ?thesis by (simp add: xj)
      next
        case False
        then have "q + 1 + j mod off \<noteq> p" using "1.prems"(3) by simp
        then have "memcpy_loop mem p q len x = mem (q + 1 + j mod off)"
          by (simp add: resj mem'_def)
        moreover have "Suc j mod off = Suc (j mod off)" using False by (simp add: mod_Suc)
        moreover have "p \<le> x \<and> x < p + unat len" using inner ul pos by arith
        ultimately show ?thesis by (simp add: xj)
      qed
    next
      case outer: False
      then have r: "memcpy_loop mem p q len x = mem' x"
        unfolding res by (simp only: if_False)
      show ?thesis
      proof (cases "x = p")
        case True
        then show ?thesis using pos r by (simp add: mem'_def)
      next
        case False
        moreover have "\<not> (p \<le> x \<and> x < p + unat len)"
          using outer False ul pos by arith
        ultimately show ?thesis using r by (auto simp add: mem'_def)
      qed
    qed
  qed
qed

text \<open>
  Claim C8. For every destination \<open>p\<close>, every \<open>offset \<ge> 1\<close> (at most \<open>p\<close>, so
  that \<open>p - offset\<close> is an address) and every length, also one greater than the offset,
  \<^verbatim>\<open>memcpy_lz_match (p, p - offset, len)\<close> returns (the function is total) and leaves
  in each \<open>p[j]\<close>, \<open>j < len\<close>, the byte that lies \<open>offset\<close> positions earlier in the
  memory after the copy: the bytes before \<open>p\<close> are repeated with period \<open>offset\<close>,
  each copied byte serving as source of a later one.
\<close>

theorem memcpy_lz_match_self_referential:
  assumes "1 \<le> offset" and "offset \<le> p"
  shows "\<forall>j < unat len.
           memcpy_lz_match mem p (p - offset) len (p + j)
             = memcpy_lz_match mem p (p - offset) len (p + j - offset)
         \<and> memcpy_lz_match mem p (p - offset) len (p + j) = mem (p - offset + j mod offset)"
proof (intro allI impI)
  fix j assume j: "j < unat len"
  then have nz: "len \<noteq> 0" by auto
  have pq: "p = (p - offset) + offset" using assms by simp
  note spec = memcpy_loop_periodic [OF nz assms(1) pq, of mem]
  have a: "memcpy_lz_match mem p (p - offset) len (p + j) = mem (p - offset + j mod offset)"
    using j nz by (simp add: memcpy_lz_match_def spec)
  have b: "memcpy_lz_match mem p (p - offset) len (p + j - offset) = mem (p - offset + j mod offset)"
  proof (cases "offset \<le> j")
    case True
    define x where "x = p + j - offset"
    have "p \<le> x" "x < p + unat len" "x - p = j - offset"
      using True j by (simp_all add: x_def)
    moreover have "(j - offset) mod offset = j mod offset"
      using True by (simp add: le_mod_geq)
    ultimately show ?thesis
      using nz by (simp add: memcpy_lz_match_def spec x_def [symmetric])
  next
    case False
    then have "p + j - offset < p" using assms by simp
    moreover have "p + j - offset = p - offset + j" using assms by simp
    ultimately show ?thesis using False nz by (simp add: memcpy_lz_match_def spec)
  qed
  show "memcpy_lz_match mem p (p - offset) len (p + j)
             = memcpy_lz_match mem p (p - offset) len (p + j - offset)
         \<and> memcpy_lz_match mem p (p - offset) len (p + j) = mem (p - offset + j mod offset)"
    using a b by simp
qed

theorem memcpy_lz_match_self_referential_witness:
  "memcpy_lz_match (zero_mem(3 := 65)) 4 3 3 6 = memcpy_lz_match (zero_mem(3 := 65)) 4 3 3 5
   \<and> memcpy_lz_match (zero_mem(3 := 65)) 4 3 3 6 = 65"
proof -
  have h1: "(1::nat) \<le> 1" and h2: "(1::nat) \<le> 4" and h3: "2 < unat (3 :: u32)"
    by simp_all
  show ?thesis
    using memcpy_lz_match_self_referential
      [OF h1 h2, of 3 "zero_mem(3 := 65)", rule_format, OF h3]
    by auto
qed

subsection \<open>The rolling hash\<close>











subsection \<open>The parameters and the empty input\<close>




lemma SmallestLen_derive: "SmallestLen (derive p) = min (SmallestLen p) (MinMatchLen p)"
  by (simp add: derive_def Let_def params.defs min_def)

lemma BlockSize_derive: "BlockSize (derive p) = BlockSize p"
  by (simp add: derive_def Let_def params.defs)

lemma HashBits_derive: "HashBits (derive p) = HashBits p"
  by (simp add: derive_def Let_def params.defs)

lemma rep_cycles_empty:
  assumes "\<forall>n. alloc n" and "0 \<le> HashBits c" and "HashBits c < 31"
  shows "rep_cycles alloc c True [] init_state
     = Some (FREEARC_OK, init_state\<lparr>hasharr := replicate (nat (HashSize c)) 0,
                                   out := put32 (int (BlockSize c))\<rparr>)"
proof -
  have "read_size c True [] init_state = 0"
    by (simp add: read_size_def init_state_def MAX_READ_def)
  then show ?thesis
    using assms
    by (subst rep_cycles.simps) (simp add: Let_def load_def init_state_def)
qed

text \<open>
  Claim C2, as amended. For the empty input the output stream is the five little-endian
  words \<open>BlockSize, 8, 0, 0, 0\<close>: the header, the last block with its size 8 (the
  two words that follow the size word), no match and an empty tail, and the end mark.
  This holds whenever the allocations succeed, \<open>HashBits\<close> is a shift count that C
  defines, and the clamped \<open>SmallestLen\<close> is not \<open>0\<close> (the source divides by it).
\<close>

theorem empty_input_stream:
  assumes "\<forall>n. alloc n" and "0 \<le> HashBits p" and "HashBits p < 31"
    and "min (SmallestLen p) (MinMatchLen p) \<noteq> 0"
  shows "rep_compress alloc p []
     = Some (FREEARC_OK, put32 (int (BlockSize p)) @ put32 8 @ put32 0 @ put32 0 @ put32 0)"
proof -
  have "rep_cycles alloc (derive p) True [] init_state
     = Some (FREEARC_OK, init_state\<lparr>hasharr := replicate (nat (HashSize (derive p))) 0,
                                   out := put32 (int (BlockSize p))\<rparr>)"
    using assms rep_cycles_empty [of alloc "derive p"]
    by (simp add: HashBits_derive BlockSize_derive)
  then show ?thesis
    using assms
    by (simp add: rep_compress_def rep_compress_run_def SmallestLen_derive finish_def
        rd_range_def init_state_def)
qed

theorem empty_input_stream_witness:
  "rep_compress alloc_ok (mkparams 4 0 2 0 2 1 1) []
     = Some (FREEARC_OK, put32 4 @ put32 8 @ put32 0 @ put32 0 @ put32 0)"
proof -
  have "\<forall>n. alloc_ok n" by (simp add: alloc_ok_def)
  then show ?thesis
    using empty_input_stream [of alloc_ok "mkparams 4 0 2 0 2 1 1"]
    by (simp add: mkparams_def)
qed

text \<open>
  The stream \<open>BlockSize, 0, 0, 0, 0\<close> of claim C2 is not what the encoder writes: a
  size word \<open>0\<close> in second place would be read by the decoder as the end mark.
\<close>

theorem empty_input_stream_counterexample:
  "rep_compress alloc_ok (mkparams 4 0 2 0 2 1 1) []
     \<noteq> Some (FREEARC_OK, put32 4 @ put32 0 @ put32 0 @ put32 0 @ put32 0)"
  by code_simp

subsection \<open>Block sizes below 8\<close>

text \<open>
  Claim C1 at a failing input. With \<open>BlockSize = 4\<close>, \<open>MinMatchLen = SmallestLen = 2\<close>
  (so \<open>L = 1\<close> and \<open>BlockSize \<ge> 2 * L\<close>) and \<open>Amplifier = 1\<close>, the first cycle reads
  four bytes; every later cycle asks the callback for
  \<^verbatim>\<open>mymin (BlockSize/8, MAX_READ)\<close> \<open>= 0\<close> bytes, takes the answer \<open>0\<close> for the end of
  the input and stops. The stream written for five bytes is the stream written for the
  first four of them, so no decoder can return the fifth.
\<close>

theorem truncated_input_same_stream:
  "rep_compress alloc_ok (mkparams 4 0 2 0 2 1 1) [1, 2, 3, 4, 5]
     = rep_compress alloc_ok (mkparams 4 0 2 0 2 1 1) [1, 2, 3, 4]
   \<and> rep_compress alloc_ok (mkparams 4 0 2 0 2 1 1) [1, 2, 3, 4, 5]
     = Some (FREEARC_OK, put32 4 @ put32 12 @ put32 0 @ put32 4 @ [1, 2, 3, 4]
                           @ put32 8 @ put32 0 @ put32 0 @ put32 0)"
  by code_simp

subsection \<open>The invariants hold\<close>

lemma find_match_start_bounds:
  "find_match_start b p q st = Some r \<Longrightarrow> r \<le> q \<and> min q st \<le> r"
proof (induction b p q st rule: find_match_start.induct)
  case (1 b p q st)
  show ?case
  proof (cases "q > st")
    case False
    then show ?thesis using "1.prems" by (simp add: find_match_start.simps [of b p q st])
  next
    case True
    then obtain x y where x: "rd b (p - 1) = Some x" and y: "rd b (q - 1) = Some y"
      using "1.prems" by (auto simp add: find_match_start.simps [of b p q st] split: option.splits)
    show ?thesis
    proof (cases "x = y")
      case False
      then show ?thesis
        using "1.prems" True x y by (simp add: find_match_start.simps [of b p q st])
    next
      case eq: True
      then have "find_match_start b (p - 1) (q - 1) st = Some r"
        using "1.prems" True x y by (simp add: find_match_start.simps [of b p q st])
      then have "r \<le> q - 1 \<and> min (q - 1) st \<le> r"
        using "1.IH" [OF True x y] eq by simp
      then show ?thesis using True by auto
    qed
  qed
qed

lemma find_match_end_bounds:
  "find_match_end b p q en = Some r \<Longrightarrow> q \<le> r \<and> r \<le> max q en"
proof (induction b p q en rule: find_match_end.induct)
  case (1 b p q en)
  show ?case
  proof (cases "q < en")
    case False
    then show ?thesis using "1.prems" by (simp add: find_match_end.simps [of b p q en])
  next
    case True
    then obtain x y where x: "rd b p = Some x" and y: "rd b q = Some y"
      using "1.prems" by (auto simp add: find_match_end.simps [of b p q en] split: option.splits)
    show ?thesis
    proof (cases "x = y")
      case False
      then show ?thesis
        using "1.prems" True x y by (simp add: find_match_end.simps [of b p q en])
    next
      case eq: True
      then have "find_match_end b (p + 1) (q + 1) en = Some r"
        using "1.prems" True x y by (simp add: find_match_end.simps [of b p q en])
      then have "q + 1 \<le> r \<and> r \<le> max (q + 1) en"
        using "1.IH" [OF True x y] eq by simp
      then show ?thesis using True by auto
    qed
  qed
qed

lemma linked_append:
  "linked pos (es @ [e]) = (linked pos es \<and> ev_last_match e = chain_end pos es)"
  by (induction es arbitrary: pos) auto

lemma chain_end_append: "chain_end pos (es @ [e]) = ev_end e"
  by (induction es arbitrary: pos) auto

lemma same_frame_refl [simp]: "same_frame s s"
  by (simp add: same_frame_def)

lemma same_frame_trans: "same_frame s s1 \<Longrightarrow> same_frame s1 s2 \<Longrightarrow> same_frame s s2"
  by (simp add: same_frame_def)

lemma probe_staged:
  assumes "probe c lim i s = Some s'" and "i \<le> lim" and "staged c lim first s"
  shows "staged c lim first s' \<and> same_frame s s' \<and> ilog s' = ilog s
         \<and> hasharr s' = hasharr s \<and> hash s' = hash s \<and> last_match s \<le> last_match s'"
proof (cases "s' = s")
  case True
  then show ?thesis using assms by simp
next
  case False
  then have ge: "i \<ge> last_match s"
    using assms(1) by (auto simp add: probe_def split: if_splits)
  from False assms(1) ge obtain match0 where m0: "hash_get c s = Some match0"
    by (auto simp add: probe_def split: bind_splits)
  define match where "match = match0 AND NOT (k1 c)"
  define LowBound where "LowBound = (if match < i then i - match
     else if match - lim > i then 0 else i - (match - lim))"
  define HighBound where "HighBound = int (BlockSize c) - match + i"
  from False assms(1) ge m0 have nm: "\<not> (match \<ge> i \<and> match < lim)"
    by (auto simp add: probe_def Let_def match_def split: if_splits)
  from False assms(1) ge m0 nm obtain start where
    st: "find_match_start (buf s) match i (max (last_match s) LowBound) = Some start"
    by (auto simp add: probe_def Let_def match_def LowBound_def split: if_splits bind_splits)
  from False assms(1) ge m0 nm st obtain end' where
    en: "find_match_end (buf s) match i (min lim HighBound) = Some end'"
    by (auto simp add: probe_def Let_def match_def LowBound_def HighBound_def
        split: if_splits bind_splits)
  define e where "e = \<lparr>ev_i = i, ev_match = match, ev_start = start, ev_end = end',
      ev_last_match = last_match s, ev_limit = lim\<rparr>"
  from False assms(1) ge m0 nm st en have
    len: "(if i - match < Barrier c then MinMatchLen c else SmallestLen c) \<le> end' - start"
    and s': "s' = s\<lparr>dataOffsets := dataOffsets s @ [last_match s],
               datalens := datalens s @ [start - last_match s],
               offsets := offsets s @ [ev_offset c e],
               lens := lens s @ [end' - start],
               literals := literals s + (start - last_match s),
               last_match := end',
               mlog := mlog s @ [e]\<rparr>"
    by (auto simp add: probe_def Let_def match_def [symmetric] LowBound_def [symmetric]
        HighBound_def [symmetric] e_def ev_offset_def split: if_splits)
  have b1: "start \<le> i" "last_match s \<le> start"
    using find_match_start_bounds [OF st] ge by auto
  have b2: "i \<le> end'" "end' \<le> lim"
    using find_match_end_bounds [OF en] assms(2) by auto
  have ok: "ev_ok c lim e"
    using b1 b2 nm len ge by (simp add: ev_ok_def e_def)
  show ?thesis
    using assms(3) ok b1 b2
    by (simp add: s' staged_def same_frame_def linked_append chain_end_append e_def)
qed

lemma pack_or:
  fixes i m x :: int
  assumes "i AND m = 0"
  shows "i + (x AND m) = i OR (x AND m)"
proof -
  have "i AND (x AND m) = (i AND m) AND x"
    by (simp add: ac_simps)
  then have "i AND (x AND m) = 0" using assms by simp
  then show ?thesis by (rule disjunctive_add_eq_or)
qed

lemma pack_pos:
  fixes i m x :: int
  assumes "i AND m = 0"
  shows "(i OR (x AND m)) AND NOT m = i"
proof (rule bit_eqI)
  fix n
  from assms have "bit (i AND m) n = bit (0::int) n" by simp
  then have "\<not> (bit i n \<and> bit m n)" by (simp add: bit_and_iff)
  then show "bit ((i OR (x AND m)) AND NOT m) n = bit i n"
    by (auto simp add: bit_and_iff bit_or_iff bit_not_iff)
qed

lemma pack_chk:
  fixes i m x :: int
  assumes "i AND m = 0"
  shows "(i OR (x AND m)) AND m = x AND m"
proof (rule bit_eqI)
  fix n
  from assms have "bit (i AND m) n = bit (0::int) n" by simp
  then have "\<not> (bit i n \<and> bit m n)" by (simp add: bit_and_iff)
  then show "bit ((i OR (x AND m)) AND m) n = bit (x AND m) n"
    by (auto simp add: bit_and_iff bit_or_iff)
qed

lemma and_pow2_minus_1:
  fixes i :: int
  shows "i AND (2 ^ b - 1) = i mod 2 ^ b"
  by (simp add: take_bit_eq_mask [symmetric] mask_eq_exp_minus_1 [symmetric] take_bit_eq_mod)

lemma and_pow2_minus_1_dvd:
  fixes i :: int
  shows "(i AND (2 ^ b - 1) = 0) = (2 ^ b dvd i)"
  by (simp add: and_pow2_minus_1 dvd_eq_mod_eq_0)

lemma cfg_ok_k_pos: "cfg_ok c \<Longrightarrow> 0 < k c"
  by (auto simp add: cfg_ok_def)

lemma cfg_ok_L_pos: "cfg_ok c \<Longrightarrow> 0 < L c"
  by (auto simp add: cfg_ok_def)

lemma cfg_ok_k_dvd_L: "cfg_ok c \<Longrightarrow> k c dvd L c"
  by (auto simp add: cfg_ok_def le_imp_power_dvd)

lemma cfg_ok_k1: "cfg_ok c \<Longrightarrow> (i AND k1 c = 0) = (k c dvd i)"
  by (auto simp add: cfg_ok_def and_pow2_minus_1_dvd)

lemma cfg_ok_L1: "cfg_ok c \<Longrightarrow> (i AND (L c - 1) = 0) = (L c dvd i)"
  by (auto simp add: cfg_ok_def and_pow2_minus_1_dvd)

lemma ins_ok_chksum:
  assumes "cfg_ok c" and "i AND k1 c = 0"
  shows "ins_ok c (i, chksum c h)"
proof -
  have "k c dvd i" using assms by (simp add: cfg_ok_k1)
  then have "i mod k c = 0" by (simp add: dvd_eq_mod_eq_0)
  then show ?thesis
    using assms(2) pack_or [OF assms(2), of "drop_bit 28 (sint h)"]
      pack_pos [OF assms(2), of "drop_bit 28 (sint h)"]
      pack_chk [OF assms(2), of "drop_bit 28 (sint h)"]
    by (simp add: ins_ok_def chksum_def)
qed

lemma hash_put_inv:
  assumes "hash_put c i s = Some s'" and "cfg_ok c" and "i AND k1 c = 0"
    and "scan_inv c lim first s"
  shows "scan_inv c lim first s' \<and> same_frame s s' \<and> last_match s' = last_match s"
proof -
  from assms(1) have s': "s' = s\<lparr>hasharr := (hasharr s)[nat (hash_slot c (hash s)) := i + chksum c (hash s)],
      ilog := ilog s @ [(i, chksum c (hash s))]\<rparr>"
    by (auto simp add: hash_put_def Let_def split: if_splits)
  show ?thesis
    using assms(4) ins_ok_chksum [OF assms(2,3)]
    by (simp add: s' scan_inv_def staged_def same_frame_def)
qed

lemma roll_inv:
  assumes "roll c i s = Some s'"
  shows "\<exists>h. s' = s\<lparr>hash := h\<rparr>"
  using assms by (auto simp add: roll_def split: bind_splits)

lemma hash_advance_pos:
  "hash_advance cP w b n i h = Some (i', h') \<Longrightarrow> i' = i + int n"
proof (induction n arbitrary: i h)
  case 0
  then show ?case by simp
next
  case (Suc n)
  from Suc.prems obtain h1 where "hash_advance cP w b n (i + 1) h1 = Some (i', h')"
    by (auto split: option.splits)
  from Suc.IH [OF this] show ?case by simp
qed

lemma roll_loop_inv:
  assumes "roll_loop c n i s = Some (i', s')"
  shows "i' = i + int n \<and> (\<exists>h. s' = s\<lparr>hash := h\<rparr>)"
  using assms by (auto simp add: roll_loop_def dest: hash_advance_pos split: bind_splits)

lemma scan_inv_hash [simp]: "scan_inv c lim first (s\<lparr>hash := h\<rparr>) = scan_inv c lim first s"
  by (simp add: scan_inv_def staged_def)

lemma same_frame_hash [simp]: "same_frame s (s\<lparr>hash := h\<rparr>)"
  by (simp add: same_frame_def)

lemma step_inv:
  assumes "step c lim i s = Some s'" and "cfg_ok c" and "i \<le> lim"
    and "scan_inv c lim first s"
  shows "scan_inv c lim first s' \<and> same_frame s s' \<and> last_match s \<le> last_match s'"
proof -
  from assms(1) obtain s1 s2 where p: "probe c lim i s = Some s1"
    and h: "(if (i AND k1 c) = 0 then hash_put c i s1 else Some s1) = Some s2"
    and r: "roll c i s2 = Some s'"
    by (auto simp add: step_def split: bind_splits)
  from assms(4) have st: "staged c lim first s"
    by (simp add: scan_inv_def)
  have 1: "staged c lim first s1" "same_frame s s1" "ilog s1 = ilog s"
    "last_match s \<le> last_match s1"
    using probe_staged [OF p assms(3) st] by simp_all
  then have i1: "scan_inv c lim first s1"
    using assms(4) by (simp add: scan_inv_def)
  have 2: "scan_inv c lim first s2 \<and> same_frame s1 s2 \<and> last_match s2 = last_match s1"
  proof (cases "(i AND k1 c) = 0")
    case True
    then show ?thesis using h hash_put_inv [OF _ assms(2) True i1] by simp
  next
    case False
    then show ?thesis using h i1 by simp
  qed
  from roll_inv [OF r] obtain hh where s': "s' = s2\<lparr>hash := hh\<rparr>" by blast
  show ?thesis
    using 1 2 same_frame_trans [of s s1 s2] by (auto simp add: s' same_frame_def)
qed

lemma probe_loop_inv:
  "probe_loop c lim n i s = Some (i', s') \<Longrightarrow> cfg_ok c \<Longrightarrow> i + int n \<le> lim \<Longrightarrow>
   scan_inv c lim first s \<Longrightarrow>
   i' = i + int n \<and> scan_inv c lim first s' \<and> same_frame s s' \<and> last_match s \<le> last_match s'"
proof (induction n arbitrary: i s)
  case 0
  then show ?case by simp
next
  case (Suc n)
  from Suc.prems(1) obtain s1 where st: "step c lim i s = Some s1"
    and rest: "probe_loop c lim n (i + 1) s1 = Some (i', s')"
    by (auto split: bind_splits)
  have 1: "scan_inv c lim first s1 \<and> same_frame s s1 \<and> last_match s \<le> last_match s1"
    using step_inv [OF st Suc.prems(2) _ Suc.prems(4)] Suc.prems(3) by simp
  have 2: "i' = i + 1 + int n \<and> scan_inv c lim first s' \<and> same_frame s1 s'
      \<and> last_match s1 \<le> last_match s'"
    using Suc.IH [OF rest Suc.prems(2)] Suc.prems(3) 1 by simp
  show ?case
    using 1 2 same_frame_trans [of s s1 s'] by auto
qed

lemma skip_loop_inv_aux:
  assumes "skip_loop c i s = Some y"
  shows "cfg_ok c \<and> k c dvd i \<and> i \<le> hi \<and> L c dvd hi \<and> scan_inv c lim first s \<longrightarrow>
     L c dvd fst y \<and> i \<le> fst y \<and> fst y \<le> hi \<and> scan_inv c lim first (snd y)
       \<and> same_frame s (snd y) \<and> last_match (snd y) = last_match s"
proof (rule skip_loop.raw_induct [where P = "\<lambda>c i s y.
     cfg_ok c \<and> k c dvd i \<and> i \<le> hi \<and> L c dvd hi \<and> scan_inv c lim first s \<longrightarrow>
     L c dvd fst y \<and> i \<le> fst y \<and> fst y \<le> hi \<and> scan_inv c lim first (snd y)
       \<and> same_frame s (snd y) \<and> last_match (snd y) = last_match s", OF _ assms], goal_cases)
  case (1 skip c i s y)
  show ?case
  proof (intro impI, elim conjE)
    assume ok: "cfg_ok c" and kd: "k c dvd i" and le: "i \<le> hi" and Lh: "L c dvd hi"
      and inv: "scan_inv c lim first s"
    show "L c dvd fst y \<and> i \<le> fst y \<and> fst y \<le> hi \<and> scan_inv c lim first (snd y)
       \<and> same_frame s (snd y) \<and> last_match (snd y) = last_match s"
    proof (cases "(i AND (L c - 1)) \<noteq> 0")
      case False
      then have "L c dvd i" using ok by (simp add: cfg_ok_L1)
      moreover from False "1"(2) have "y = (i, s)" by simp
      ultimately show ?thesis using le inv by simp
    next
      case True
      then obtain s1 i1 s2 where hp: "hash_put c i s = Some s1"
        and rl: "roll_loop c (nat (k c)) i s1 = Some (i1, s2)"
        and rec: "skip c i1 s2 = Some y"
        using "1"(2) by (auto split: bind_splits)
      have k1: "i AND k1 c = 0"
        using ok kd by (simp add: cfg_ok_k1)
      have a: "scan_inv c lim first s1 \<and> same_frame s s1 \<and> last_match s1 = last_match s"
        using hash_put_inv [OF hp ok k1 inv] .
      from roll_loop_inv [OF rl] obtain h where i1: "i1 = i + int (nat (k c))"
        and s2: "s2 = s1\<lparr>hash := h\<rparr>" by blast
      have kpos: "0 < k c" using ok by (rule cfg_ok_k_pos)
      then have i1': "i1 = i + k c" using i1 by simp
      have nd: "\<not> L c dvd i" using True ok by (simp add: cfg_ok_L1)
      then have "i \<noteq> hi" using Lh by auto
      then have lt: "i < hi" using le by simp
      have "k c dvd hi" using cfg_ok_k_dvd_L [OF ok] Lh by (rule dvd_trans)
      then have "k c dvd hi - i" using kd by (rule dvd_diff)
      then have "k c \<le> hi - i" using lt by (intro zdvd_imp_le) simp_all
      then have le1: "i1 \<le> hi" using i1' by simp
      have kd1: "k c dvd i1" using kd i1' by simp
      have b: "scan_inv c lim first s2" using a s2 by simp
      have r: "L c dvd fst y \<and> i1 \<le> fst y \<and> fst y \<le> hi \<and> scan_inv c lim first (snd y)
          \<and> same_frame s2 (snd y) \<and> last_match (snd y) = last_match s2"
        using "1"(1) [OF rec] ok kd1 le1 Lh b by blast
      show ?thesis
        using a r kpos i1' s2 by (auto simp add: same_frame_def)
    qed
  qed
qed

lemma skip_loop_inv:
  assumes "skip_loop c i s = Some (i', s')" and "cfg_ok c" and "k c dvd i" and "i \<le> hi"
    and "L c dvd hi" and "scan_inv c lim first s"
  shows "L c dvd i' \<and> i \<le> i' \<and> i' \<le> hi \<and> scan_inv c lim first s' \<and> same_frame s s'
     \<and> last_match s' = last_match s"
  using skip_loop_inv_aux [OF assms(1), of hi lim first] assms(2-) by simp

lemma same_frame_scan_frame: "same_frame s s' \<Longrightarrow> scan_frame s s'"
  by (simp add: same_frame_def scan_frame_def)

lemma scan_inv_last_i [simp]: "scan_inv c lim first (s\<lparr>last_i := i\<rparr>) = scan_inv c lim first s"
  by (simp add: scan_inv_def staged_def)

lemma scan_loop_inv_aux:
  assumes "scan_loop c lim s = Some s'"
  shows "cfg_ok c \<and> L c dvd last_i s \<and> last_i s \<le> lim \<and> scan_inv c lim first s \<longrightarrow>
     scan_inv c lim first s' \<and> L c dvd last_i s' \<and> last_i s' \<le> lim \<and> scan_frame s s'
       \<and> last_match s \<le> last_match s'"
proof (rule scan_loop.raw_induct [where P = "\<lambda>c lim s s'.
     cfg_ok c \<and> L c dvd last_i s \<and> last_i s \<le> lim \<and> scan_inv c lim first s \<longrightarrow>
     scan_inv c lim first s' \<and> L c dvd last_i s' \<and> last_i s' \<le> lim \<and> scan_frame s s'
       \<and> last_match s \<le> last_match s'", OF _ assms], goal_cases)
  case (1 scan c lim s s')
  show ?case
  proof (intro impI, elim conjE)
    assume ok: "cfg_ok c" and Ld: "L c dvd last_i s" and le: "last_i s \<le> lim"
      and inv: "scan_inv c lim first s"
    show "scan_inv c lim first s' \<and> L c dvd last_i s' \<and> last_i s' \<le> lim \<and> scan_frame s s'
       \<and> last_match s \<le> last_match s'"
    proof (cases "last_i s + L c * 2 < lim")
      case False
      then have "s' = s" using "1"(2) by simp
      then show ?thesis using Ld le inv by (simp add: scan_frame_def)
    next
      case True
      then obtain i1 s1 i2 s2 where
        pl: "probe_loop c lim (nat (test c)) (last_i s) s = Some (i1, s1)"
        and sl: "skip_loop c i1 s1 = Some (i2, s2)"
        and rec: "scan c lim (s2\<lparr>last_i := i2\<rparr>) = Some s'"
        using "1"(2) by (auto split: bind_splits)
      have Lpos: "0 < L c" using ok by (rule cfg_ok_L_pos)
      have tl: "test c \<le> L c" and kt: "k c dvd test c"
        using ok by (auto simp add: cfg_ok_def)
      have nt: "int (nat (test c)) \<le> L c" using tl Lpos by simp
      have kn: "k c dvd int (nat (test c))" using kt by (cases "0 \<le> test c") simp_all
      have a: "i1 = last_i s + int (nat (test c)) \<and> scan_inv c lim first s1 \<and> same_frame s s1
          \<and> last_match s \<le> last_match s1"
        using probe_loop_inv [OF pl ok _ inv] True nt Lpos by simp
      have ki: "k c dvd last_i s"
        using cfg_ok_k_dvd_L [OF ok] Ld by (rule dvd_trans)
      have k1: "k c dvd i1" using a ki kn by simp
      have le1: "i1 \<le> last_i s + L c" using a nt by simp
      have Lh: "L c dvd last_i s + L c" using Ld by simp
      have b: "L c dvd i2 \<and> i1 \<le> i2 \<and> i2 \<le> last_i s + L c \<and> scan_inv c lim first s2
          \<and> same_frame s1 s2 \<and> last_match s2 = last_match s1"
      proof -
        from a have "scan_inv c lim first s1" by simp
        from skip_loop_inv [OF sl ok k1 le1 Lh this] show ?thesis .
      qed
      have r: "scan_inv c lim first s' \<and> L c dvd last_i s' \<and> last_i s' \<le> lim
          \<and> scan_frame (s2\<lparr>last_i := i2\<rparr>) s' \<and> last_match (s2\<lparr>last_i := i2\<rparr>) \<le> last_match s'"
        using "1"(1) [OF rec] ok b True Lpos by simp
      show ?thesis
        using a b r by (auto simp add: same_frame_def scan_frame_def)
    qed
  qed
qed

lemma scan_loop_inv:
  assumes "scan_loop c lim s = Some s'" and "cfg_ok c" and "L c dvd last_i s"
    and "last_i s \<le> lim" and "scan_inv c lim first s"
  shows "scan_inv c lim first s' \<and> L c dvd last_i s' \<and> last_i s' \<le> lim \<and> scan_frame s s'
     \<and> last_match s \<le> last_match s'"
  using scan_loop_inv_aux [OF assms(1), of first] assms(2-) by simp

lemma chain_end_bounds:
  "linked first es \<Longrightarrow> list_all (ev_ok c lim) es \<Longrightarrow>
   first \<le> chain_end first es \<and> (first \<le> lim \<longrightarrow> chain_end first es \<le> lim)"
proof (induction es arbitrary: first)
  case Nil
  then show ?case by simp
next
  case (Cons e es)
  then have "ev_end e \<le> chain_end (ev_end e) es
      \<and> (ev_end e \<le> lim \<longrightarrow> chain_end (ev_end e) es \<le> lim)"
    by simp
  moreover from Cons.prems have "first \<le> ev_end e" "ev_end e \<le> lim"
    by (auto simp add: ev_ok_def)
  ultimately show ?case by simp
qed

lemma blocks_linked_append:
  "blocks_linked c pos (bs @ [b]) =
     (blocks_linked c pos bs \<and> blk_first b = blocks_end c pos bs
      \<and> (blk_Base b = int (BlockSize c) \<longrightarrow> blk_last b = int (BlockSize c)))"
  by (induction bs arbitrary: pos) auto

lemma blocks_end_append:
  "blocks_end c pos (bs @ [b]) = (if blk_Base b = int (BlockSize c) then 0 else blk_last b)"
  by (induction bs arbitrary: pos) auto

lemma block_end_inv:
  assumes "block_end c Size (last_match s0) s = Some s'" and "cyc_inv c s0"
    and "scan_inv c (Base s + Size) (last_match s0) s" and "scan_frame s0 s"
    and "L c dvd last_i s" and "last_i s \<le> Base s + Size"
    and "0 < Size" and "Base s + Size \<le> int (BlockSize c)"
  shows "cyc_inv c s'"
proof -
  define lim where "lim = Base s + Size"
  define first where "first = last_match s0"
  define wrap where "wrap = (lim = int (BlockSize c))"
  define li where "li = (if wrap then lim else last_i s)"
  define b where "b = \<lparr>blk_first = first, blk_events = mlog s, blk_lens = lens s,
      blk_offsets = offsets s,
      blk_datalens = (if last_match s > li then datalens s @ [0]
                      else datalens s @ [li - last_match s]),
      blk_dataOffsets = (if last_match s > li then dataOffsets s
                         else dataOffsets s @ [last_match s]),
      blk_last = (if last_match s > li then last_match s else li), blk_Base = lim\<rparr>"
  have st: "staged c lim first s" and il: "list_all (ins_ok c) (ilog s)"
    using assms(3) by (simp_all add: scan_inv_def lim_def first_def)
  have f0: "first \<le> Base s0" using assms(2) by (simp add: cyc_inv_def first_def)
  have bs: "Base s = Base s0" "blog s = blog s0" using assms(4) by (simp_all add: scan_frame_def)
  have fl: "first \<le> lim" using f0 bs assms(7) by (simp add: lim_def)
  have ce: "first \<le> last_match s" "last_match s \<le> lim"
    using chain_end_bounds [of first "mlog s" c lim] st fl by (simp_all add: staged_def)
  have lil: "li \<le> lim" using assms(6) by (simp add: li_def lim_def)
  from assms(1) have blog': "blog s' = blog s @ [b]"
    and ilog': "ilog s' = ilog s"
    and lm': "last_match s' = (if wrap then 0 else blk_last b)"
    and li': "last_i s' = (if wrap then 0 else last_i s)"
    and base': "Base s' = (if wrap then 0 else lim)"
    by (auto simp add: block_end_def Let_def b_def li_def wrap_def lim_def first_def
        split: bind_splits if_splits)
  have bok: "block_ok c b"
    using st ce lil assms(8)
    by (auto simp add: block_ok_def Let_def b_def staged_def nth_append lim_def)
  have wl: "wrap \<longrightarrow> blk_last b = int (BlockSize c)"
    using ce by (auto simp add: b_def li_def wrap_def)
  have bl: "blk_last b \<le> lim" using ce lil by (simp add: b_def)
  show ?thesis
    using assms(2) assms(5) assms(6) il bok wl bl st
    by (auto simp add: cyc_inv_def blog' ilog' lm' li' base' bs [symmetric] blocks_linked_append
        blocks_end_append staged_def first_def b_def wrap_def lim_def)
qed

lemma cyc_inv_frame:
  "ilog s' = ilog s \<Longrightarrow> blog s' = blog s \<Longrightarrow> last_match s' = last_match s \<Longrightarrow>
   last_i s' = last_i s \<Longrightarrow> Base s' = Base s \<Longrightarrow> cyc_inv c s' = cyc_inv c s"
  by (simp add: cyc_inv_def)

lemma cycle_inv:
  assumes "cycle c Size s1 = Some s4" and "cfg_ok c" and "cyc_inv c s1"
    and "0 < Size" and "Base s1 + Size \<le> int (BlockSize c)"
  shows "cyc_inv c s4"
proof -
  from assms(1) obtain s2 s3 where
    s2: "(if Base s1 = 0
          then map_option (\<lambda>h. s1\<lparr>hash := h\<rparr>)
                 (hash_init (cPOWER_PRIME_L c) (buf s1) (nat (min (L c) Size)) 0 0)
          else Some s1) = Some s2"
    and sc: "scan_loop c (Base s2 + Size)
               (s2\<lparr>literals := 0, lens := [], offsets := [], datalens := [],
                   dataOffsets := [], mlog := []\<rparr>) = Some s3"
    and be: "block_end c Size (last_match s2) s3 = Some s4"
    by (auto simp add: cycle_def split: bind_splits)
  from s2 obtain h where s2': "s2 = s1\<lparr>hash := h\<rparr>"
    by (cases "Base s1 = 0") (auto, metis rep_state.surjective rep_state.update_convs(3))
  have inv2: "cyc_inv c s2" using assms(3) by (simp add: s2' cyc_inv_def)
  define r where "r = s2\<lparr>literals := 0, lens := [], offsets := [], datalens := [],
                   dataOffsets := [], mlog := []\<rparr>"
  have si: "scan_inv c (Base s2 + Size) (last_match s2) r"
    using inv2 by (simp add: scan_inv_def staged_def r_def cyc_inv_def)
  have Ld: "L c dvd last_i r" and li: "last_i r \<le> Base s2 + Size"
    using inv2 assms(4) by (simp_all add: r_def cyc_inv_def)
  have a: "scan_inv c (Base s2 + Size) (last_match s2) s3 \<and> L c dvd last_i s3
      \<and> last_i s3 \<le> Base s2 + Size \<and> scan_frame r s3 \<and> last_match r \<le> last_match s3"
    using scan_loop_inv [OF sc [folded r_def] assms(2) Ld li si] .
  have sf: "scan_frame s2 s3" using a by (simp add: scan_frame_def r_def)
  then have bs: "Base s3 = Base s2" by (simp add: scan_frame_def)
  show ?thesis
    using block_end_inv [OF be inv2 _ sf _ _ assms(4)] a assms(5) bs
    by (simp add: s2')
qed

lemma rep_cycles_inv:
  "rep_cycles alloc c ft input s = Some (e, s') \<Longrightarrow> cfg_ok c \<Longrightarrow> cyc_inv c s \<Longrightarrow> cyc_inv c s'"
proof (induction "length input" arbitrary: ft input s rule: less_induct)
  case less
  define Size where "Size = read_size c ft input s"
  define s0 where "s0 = load input Size (Base s) s"
  define s1 where "s1 = (if ft
                      then s0\<lparr>hasharr := replicate (nat (HashSize c)) 0,
                              out := out s0 @ put32 (int (BlockSize c))\<rparr>
                      else s0)"
  have i0: "cyc_inv c s0" using less.prems(3) by (simp add: s0_def load_def cyc_inv_def)
  then have i1: "cyc_inv c s1" by (simp add: s1_def cyc_inv_def)
  have b1: "Base s1 = Base s" by (simp add: s1_def s0_def load_def)
  note eq = less.prems(1) [unfolded rep_cycles.simps [of alloc c ft input s],
      folded Size_def, unfolded Let_def, folded s0_def, folded s1_def]
  show ?case
  proof (cases "Size < 0 \<or> (ft \<and> HashSize c \<noteq> 0 \<and> \<not> alloc (HashSize c * 4)) \<or> Size = 0")
    case True
    then have "s' = s \<or> s' = s0 \<or> s' = s1"
      using eq by (auto split: if_splits)
    then show ?thesis using less.prems(3) i0 i1 by auto
  next
    case False
    then have pos: "0 < Size" by simp
    from False eq obtain s4 where cy: "cycle c Size s1 = Some s4"
      and rec: "rep_cycles alloc c False (drop (nat Size) input) s4 = Some (e, s')"
      by (auto split: if_splits bind_splits)
    have "Size \<le> int (BlockSize c) - Base s" "Size \<le> int (length input)"
      by (simp_all add: Size_def read_size_def)
    then have le: "Base s1 + Size \<le> int (BlockSize c)" and lt: "length (drop (nat Size) input) < length input"
      using pos b1 by simp_all
    have "cyc_inv c s4"
      using cycle_inv [OF cy less.prems(2) i1 pos le] .
    from less.hyps [OF lt rec less.prems(2) this] show ?thesis .
  qed
qed

lemma roundup_to_power_of2_pow: "\<exists>b. roundup_to_power_of2 n = 2 ^ b"
proof (induction n rule: roundup_to_power_of2.induct)
  case (1 n)
  show ?case
  proof (cases "n \<le> 1")
    case True
    then have "roundup_to_power_of2 n = 2 ^ 0"
      by (simp add: roundup_to_power_of2.simps [of n])
    then show ?thesis by blast
  next
    case False
    then obtain b where "roundup_to_power_of2 ((n + 1) div 2) = 2 ^ b"
      using "1.IH" by auto
    then have "roundup_to_power_of2 n = 2 ^ Suc b"
      using False by (simp add: roundup_to_power_of2.simps [of n])
    then show ?thesis by blast
  qed
qed

lemma sqrtb_loop_pow: "sqrtb_loop r (2 ^ m) = r * 2 ^ (m div 2)"
proof (induction m arbitrary: r rule: less_induct)
  case (less m)
  show ?case
  proof (cases "m < 2")
    case True
    then have "m = 0 \<or> m = 1" by auto
    then show ?thesis
      by (auto simp add: sqrtb_loop.simps [of r 1] sqrtb_loop.simps [of r 2]
          sqrtb_loop.simps [of r "Suc 0"])
  next
    case False
    then have "m = Suc (Suc (m - 2))" by simp
    then obtain m' where m: "m = Suc (Suc m')" ..
    have "(2::nat) ^ m div (2 * 2) = 2 ^ m'" by (simp add: m)
    then have "sqrtb_loop r (2 ^ m) = sqrtb_loop (r * 2) (2 ^ m')"
      by (simp add: sqrtb_loop.simps [of r "2 ^ m"] Let_def)
    also have "\<dots> = r * 2 * 2 ^ (m' div 2)"
      using less.IH [of m' "r * 2"] m by simp
    also have "\<dots> = r * 2 ^ (m div 2)" by (simp add: m)
    finally show ?thesis .
  qed
qed

lemma cfg_ok_derive: "cfg_ok (derive p)"
proof -
  define S where "S = (if SmallestLen p > MinMatchLen p then MinMatchLen p else SmallestLen p)"
  obtain b where b: "roundup_to_power_of2 (nat (take_bit 32 (tdiv S 2))) = 2 ^ b"
    using roundup_to_power_of2_pow by blast
  have Lq: "L (derive p) = 2 ^ b"
    using b by (simp add: derive_def Let_def S_def params.defs)
  have "nat (2 ^ b * 2 :: int) = 2 ^ Suc b"
    by (simp add: nat_mult_distrib nat_power_eq)
  then have kq: "k (derive p) = 2 ^ (Suc b div 2)"
    using b sqrtb_loop_pow [of 1 "Suc b"]
    by (simp add: derive_def Let_def S_def [symmetric] sqrtb_def params.defs)
  have ab: "Suc b div 2 \<le> b" by simp
  have k1q: "k1 (derive p) = k (derive p) - 1"
    by (simp add: derive_def Let_def params.defs)
  have tq: "test (derive p) = min (k (derive p) * Amplifier p) (L (derive p))"
    by (simp add: derive_def Let_def params.defs)
  have "k (derive p) dvd L (derive p)"
    using ab by (simp add: Lq kq le_imp_power_dvd)
  then have "k (derive p) dvd test (derive p)"
    by (simp add: tq min_def)
  moreover have "test (derive p) \<le> L (derive p)" by (simp add: tq)
  ultimately show ?thesis
    unfolding cfg_ok_def using Lq kq ab k1q by blast
qed

lemma cyc_inv_init: "cfg_ok c \<Longrightarrow> cyc_inv c init_state"
  by (simp add: cyc_inv_def init_state_def)

lemma rep_compress_run_inv:
  assumes "rep_compress_run alloc p input = Some (rc, s)"
  shows "cyc_inv (derive p) s"
proof (cases "alloc (int (BlockSize p))")
  case False
  then have "s = init_state" using assms by (simp add: rep_compress_run_def)
  then show ?thesis using cyc_inv_init [OF cfg_ok_derive] by simp
next
  case True
  then obtain e1 s1 where cy: "rep_cycles alloc (derive p) True input init_state = Some (e1, s1)"
    and fin: "(if e1 = FREEARC_OK then map_option (Pair FREEARC_OK) (finish s1) else Some (e1, s1))
      = Some (rc, s)"
    using assms by (auto simp add: rep_compress_run_def Let_def split: if_splits bind_splits)
  have i1: "cyc_inv (derive p) s1"
    using rep_cycles_inv [OF cy cfg_ok_derive cyc_inv_init [OF cfg_ok_derive]] .
  show ?thesis
  proof (cases "e1 = FREEARC_OK")
    case False
    then show ?thesis using fin i1 by simp
  next
    case True
    then obtain t where "s = s1\<lparr>out := t\<rparr>"
      using fin by (auto simp add: finish_def Let_def split: bind_splits)
    then show ?thesis using i1 by (simp add: cyc_inv_def)
  qed
qed

lemma derive_fields:
  "BlockSize (derive p) = BlockSize p" "MinMatchLen (derive p) = MinMatchLen p"
  "Barrier (derive p) = Barrier p" "SmallestLen (derive p) = min (SmallestLen p) (MinMatchLen p)"
  "k1 (derive p) = k (derive p) - 1"
  by (simp_all add: derive_def Let_def params.defs min_def)

subsection \<open>What every run of the encoder emits\<close>

lemma run_blocks_ok:
  assumes "rep_compress_run alloc p input = Some (rc, s)" and "b \<in> set (blog s)"
  shows "block_ok (derive p) b"
  using rep_compress_run_inv [OF assms(1)] assms(2)
  by (simp add: cyc_inv_def list_all_iff)

lemma ev_ok_lengths:
  assumes "ev_ok c lim e" and "SmallestLen c \<le> MinMatchLen c"
  shows "(ev_i e - ev_match e < Barrier c \<longrightarrow> MinMatchLen c \<le> ev_end e - ev_start e)
         \<and> (\<not> ev_i e - ev_match e < Barrier c \<longrightarrow> SmallestLen c \<le> ev_end e - ev_start e)
         \<and> (ev_offset c e < Barrier c \<longrightarrow> MinMatchLen c \<le> ev_end e - ev_start e)
         \<and> SmallestLen c \<le> ev_end e - ev_start e"
proof -
  from assms(1) have len:
    "(if ev_i e - ev_match e < Barrier c then MinMatchLen c else SmallestLen c)
       \<le> ev_end e - ev_start e"
    by (simp add: ev_ok_def)
  show ?thesis
  proof (cases "ev_i e - ev_match e < Barrier c")
    case True
    then show ?thesis using len assms(2) by simp
  next
    case False
    then have "\<not> ev_offset c e < Barrier c"
      by (simp add: ev_offset_def)
    then show ?thesis using len False by simp
  qed
qed

text \<open>
  Claim C3. In every block that a run of \<^verbatim>\<open>rep_compress\<close> writes, the array
  \<^verbatim>\<open>lens\<close> holds \<open>end - start\<close> of the matches emitted in the cycle and
  \<^verbatim>\<open>offsets\<close> their offsets, and every one of these matches has length at least
  \<open>MinMatchLen\<close> when \<open>i - match\<close> is below \<open>Barrier\<close>, and at least \<open>SmallestLen\<close>
  otherwise. \<open>SmallestLen\<close> is the value that the function uses, which is the argument
  whenever the argument is at most \<open>MinMatchLen\<close>. The same holds with the offset
  written to the stream in place of \<open>i - match\<close>.
\<close>

theorem emitted_match_lengths:
  assumes "rep_compress_run alloc p input = Some (rc, s)"
  shows "\<forall>b\<in>set (blog s).
           blk_lens b = map (\<lambda>e. ev_end e - ev_start e) (blk_events b)
           \<and> blk_offsets b = map (ev_offset (derive p)) (blk_events b)
           \<and> (\<forall>e\<in>set (blk_events b).
                 (ev_i e - ev_match e < Barrier p \<longrightarrow> MinMatchLen p \<le> ev_end e - ev_start e)
                 \<and> (\<not> ev_i e - ev_match e < Barrier p \<longrightarrow>
                       min (SmallestLen p) (MinMatchLen p) \<le> ev_end e - ev_start e)
                 \<and> (ev_offset (derive p) e < Barrier p \<longrightarrow>
                       MinMatchLen p \<le> ev_end e - ev_start e)
                 \<and> min (SmallestLen p) (MinMatchLen p) \<le> ev_end e - ev_start e)"
proof
  fix b assume "b \<in> set (blog s)"
  note ok = run_blocks_ok [OF assms this]
  have a: "blk_lens b = map (\<lambda>e. ev_end e - ev_start e) (blk_events b)"
    and b: "blk_offsets b = map (ev_offset (derive p)) (blk_events b)"
    and c: "list_all (ev_ok (derive p) (blk_Base b)) (blk_events b)"
    using ok unfolding block_ok_def Let_def by simp_all
  have sm: "SmallestLen (derive p) \<le> MinMatchLen (derive p)"
    by (simp add: derive_fields)
  have d: "\<forall>e\<in>set (blk_events b).
                 (ev_i e - ev_match e < Barrier p \<longrightarrow> MinMatchLen p \<le> ev_end e - ev_start e)
                 \<and> (\<not> ev_i e - ev_match e < Barrier p \<longrightarrow>
                       min (SmallestLen p) (MinMatchLen p) \<le> ev_end e - ev_start e)
                 \<and> (ev_offset (derive p) e < Barrier p \<longrightarrow>
                       MinMatchLen p \<le> ev_end e - ev_start e)
                 \<and> min (SmallestLen p) (MinMatchLen p) \<le> ev_end e - ev_start e"
  proof
    fix e assume "e \<in> set (blk_events b)"
    then have "ev_ok (derive p) (blk_Base b) e"
      using c by (simp add: list_all_iff)
    from ev_ok_lengths [OF this sm, unfolded derive_fields]
    show "(ev_i e - ev_match e < Barrier p \<longrightarrow> MinMatchLen p \<le> ev_end e - ev_start e)
                 \<and> (\<not> ev_i e - ev_match e < Barrier p \<longrightarrow>
                       min (SmallestLen p) (MinMatchLen p) \<le> ev_end e - ev_start e)
                 \<and> (ev_offset (derive p) e < Barrier p \<longrightarrow>
                       MinMatchLen p \<le> ev_end e - ev_start e)
                 \<and> min (SmallestLen p) (MinMatchLen p) \<le> ev_end e - ev_start e" .
  qed
  show "blk_lens b = map (\<lambda>e. ev_end e - ev_start e) (blk_events b)
           \<and> blk_offsets b = map (ev_offset (derive p)) (blk_events b)
           \<and> (\<forall>e\<in>set (blk_events b).
                 (ev_i e - ev_match e < Barrier p \<longrightarrow> MinMatchLen p \<le> ev_end e - ev_start e)
                 \<and> (\<not> ev_i e - ev_match e < Barrier p \<longrightarrow>
                       min (SmallestLen p) (MinMatchLen p) \<le> ev_end e - ev_start e)
                 \<and> (ev_offset (derive p) e < Barrier p \<longrightarrow>
                       MinMatchLen p \<le> ev_end e - ev_start e)
                 \<and> min (SmallestLen p) (MinMatchLen p) \<le> ev_end e - ev_start e)"
    by (rule conjI [OF a conjI [OF b d]])
qed

lemma sample_run: "rep_compress_run alloc_ok (mkparams 64 0 4 0 4 4 1) sample \<noteq> None"
  by code_simp

lemma sample_blog:
  "map_option (\<lambda>(rc, s). map blk_lens (blog s))
     (rep_compress_run alloc_ok (mkparams 64 0 4 0 4 4 1) sample) = Some [[20]]"
  "map_option (\<lambda>(rc, s). map blk_offsets (blog s))
     (rep_compress_run alloc_ok (mkparams 64 0 4 0 4 4 1) sample) = Some [[9]]"
  "map_option (\<lambda>(rc, s). map blk_datalens (blog s))
     (rep_compress_run alloc_ok (mkparams 64 0 4 0 4 4 1) sample) = Some [[9, 0]]"
  by code_simp+

lemma sample_ilog:
  "map_option (\<lambda>(rc, s). take 3 (ilog s))
     (rep_compress_run alloc_ok (mkparams 64 0 4 0 4 4 1) sample) = Some [(0, 0), (2, 0), (4, 0)]"
  by code_simp

theorem emitted_match_lengths_witness:
  "\<exists>rc s. rep_compress_run alloc_ok (mkparams 64 0 4 0 4 4 1) sample = Some (rc, s)
     \<and> map blk_lens (blog s) = [[20]]
     \<and> (\<forall>b\<in>set (blog s).
           blk_lens b = map (\<lambda>e. ev_end e - ev_start e) (blk_events b)
           \<and> (\<forall>e\<in>set (blk_events b). 4 \<le> ev_end e - ev_start e))"
proof -
  obtain rc s where r: "rep_compress_run alloc_ok (mkparams 64 0 4 0 4 4 1) sample = Some (rc, s)"
    using sample_run by (cases "rep_compress_run alloc_ok (mkparams 64 0 4 0 4 4 1) sample") auto
  have "map blk_lens (blog s) = [[20]]"
    using sample_blog(1) r by simp
  moreover have "\<forall>b\<in>set (blog s).
           blk_lens b = map (\<lambda>e. ev_end e - ev_start e) (blk_events b)
           \<and> (\<forall>e\<in>set (blk_events b). 4 \<le> ev_end e - ev_start e)"
    using emitted_match_lengths [OF r] by (simp add: mkparams_def) 
  ultimately show ?thesis using r by (intro exI [of _ rc] exI [of _ s] conjI)
qed

text \<open>
  Claim C4. For every match emitted, with scan position \<open>i\<close> and candidate \<open>match\<close>
  taken from the hash table, it is not the case that \<open>match \<ge> i\<close> and
  \<open>match < Base+Size\<close> at the time of the probe. The match starts at or after
  \<^verbatim>\<open>last_match\<close>, the probe is made at or after it, the match ends at or before
  \<open>Base+Size\<close>, and so does the last literal run of every block; \<open>Base+Size\<close> is
  never beyond the buffer.
\<close>

theorem no_match_in_read_window:
  assumes "rep_compress_run alloc p input = Some (rc, s)"
  shows "\<forall>b\<in>set (blog s).
           blk_last b \<le> blk_Base b \<and> blk_Base b \<le> int (BlockSize p)
           \<and> (\<forall>e\<in>set (blk_events b).
                 ev_limit e = blk_Base b
                 \<and> \<not> (ev_i e \<le> ev_match e \<and> ev_match e < ev_limit e)
                 \<and> ev_last_match e \<le> ev_i e \<and> ev_last_match e \<le> ev_start e
                 \<and> ev_end e \<le> ev_limit e)"
proof
  fix b assume "b \<in> set (blog s)"
  note ok = run_blocks_ok [OF assms this]
  have c: "list_all (ev_ok (derive p) (blk_Base b)) (blk_events b)"
    and d: "blk_last b \<le> blk_Base b" and e: "blk_Base b \<le> int (BlockSize (derive p))"
    using ok unfolding block_ok_def Let_def by simp_all
  have f: "\<forall>e\<in>set (blk_events b).
                 ev_limit e = blk_Base b
                 \<and> \<not> (ev_i e \<le> ev_match e \<and> ev_match e < ev_limit e)
                 \<and> ev_last_match e \<le> ev_i e \<and> ev_last_match e \<le> ev_start e
                 \<and> ev_end e \<le> ev_limit e"
  proof
    fix e assume "e \<in> set (blk_events b)"
    then have "ev_ok (derive p) (blk_Base b) e"
      using c by (simp add: list_all_iff)
    then show "ev_limit e = blk_Base b
                 \<and> \<not> (ev_i e \<le> ev_match e \<and> ev_match e < ev_limit e)
                 \<and> ev_last_match e \<le> ev_i e \<and> ev_last_match e \<le> ev_start e
                 \<and> ev_end e \<le> ev_limit e"
      by (simp add: ev_ok_def)
  qed
  from e have e': "blk_Base b \<le> int (BlockSize p)" by (simp only: derive_fields)
  show "blk_last b \<le> blk_Base b \<and> blk_Base b \<le> int (BlockSize p)
           \<and> (\<forall>e\<in>set (blk_events b).
                 ev_limit e = blk_Base b
                 \<and> \<not> (ev_i e \<le> ev_match e \<and> ev_match e < ev_limit e)
                 \<and> ev_last_match e \<le> ev_i e \<and> ev_last_match e \<le> ev_start e
                 \<and> ev_end e \<le> ev_limit e)"
    by (rule conjI [OF d conjI [OF e' f]])
qed

theorem no_match_in_read_window_witness:
  "\<exists>rc s. rep_compress_run alloc_ok (mkparams 64 0 4 0 4 4 1) sample = Some (rc, s)
     \<and> map blk_offsets (blog s) = [[9]]
     \<and> (\<forall>b\<in>set (blog s).
           blk_last b \<le> blk_Base b
           \<and> (\<forall>e\<in>set (blk_events b).
                 \<not> (ev_i e \<le> ev_match e \<and> ev_match e < ev_limit e)
                 \<and> ev_last_match e \<le> ev_start e \<and> ev_end e \<le> ev_limit e))"
proof -
  obtain rc s where r: "rep_compress_run alloc_ok (mkparams 64 0 4 0 4 4 1) sample = Some (rc, s)"
    using sample_run by (cases "rep_compress_run alloc_ok (mkparams 64 0 4 0 4 4 1) sample") auto
  have "map blk_offsets (blog s) = [[9]]"
    using sample_blog(2) r by simp
  moreover have "\<forall>b\<in>set (blog s).
           blk_last b \<le> blk_Base b
           \<and> (\<forall>e\<in>set (blk_events b).
                 \<not> (ev_i e \<le> ev_match e \<and> ev_match e < ev_limit e)
                 \<and> ev_last_match e \<le> ev_start e \<and> ev_end e \<le> ev_limit e)"
    using no_match_in_read_window [OF r] by blast
  ultimately show ?thesis using r by (intro exI [of _ rc] exI [of _ s] conjI)
qed





text \<open>
  Claim C7. Every write to \<^verbatim>\<open>hasharr\<close>, in the first inner loop and in the second,
  is made at a position \<open>i\<close> with \<open>i mod k = 0\<close>: the bits of \<open>i\<close> under the mask
  \<open>k - 1\<close> are zero, \<open>i + chksum\<close> is \<open>i OR chksum\<close>, and the masks \<open>NOT (k - 1)\<close>
  and \<open>k - 1\<close> give back the position and the checksum.
\<close>

theorem hash_inserts_aligned:
  assumes "rep_compress_run alloc p input = Some (rc, s)"
  shows "\<forall>(i, chk)\<in>set (ilog s).
           i mod k (derive p) = 0 \<and> i AND (k (derive p) - 1) = 0
           \<and> i + chk = i OR chk
           \<and> (i + chk) AND NOT (k (derive p) - 1) = i
           \<and> (i + chk) AND (k (derive p) - 1) = chk"
  using rep_compress_run_inv [OF assms]
  by (auto simp add: cyc_inv_def list_all_iff ins_ok_def derive_fields(5) [symmetric])

theorem hash_inserts_aligned_witness:
  "\<exists>rc s. rep_compress_run alloc_ok (mkparams 64 0 4 0 4 4 1) sample = Some (rc, s)
     \<and> take 3 (ilog s) = [(0, 0), (2, 0), (4, 0)]
     \<and> (\<forall>(i, chk)\<in>set (ilog s). i mod 2 = 0 \<and> i + chk = i OR chk)"
proof -
  obtain rc s where r: "rep_compress_run alloc_ok (mkparams 64 0 4 0 4 4 1) sample = Some (rc, s)"
    using sample_run by (cases "rep_compress_run alloc_ok (mkparams 64 0 4 0 4 4 1) sample") auto
  have k: "k (derive (mkparams 64 0 4 0 4 4 1)) = 2"
    by code_simp
  have "take 3 (ilog s) = [(0, 0), (2, 0), (4, 0)]"
    using sample_ilog r by simp
  moreover have "\<forall>(i, chk)\<in>set (ilog s). i mod 2 = 0 \<and> i + chk = i OR chk"
    using hash_inserts_aligned [OF r] by (auto simp add: k)
  ultimately show ?thesis using r by (intro exI [of _ rc] exI [of _ s] conjI)
qed

subsection \<open>The encoder returns\<close>

text \<open>
  The reads and writes of a scan stay inside the buffer and the hash table, the loops
  end, and the literal runs of a block are inside the buffer: a run of
  \<^verbatim>\<open>rep_compress\<close> has a result whenever the hash table has at least one entry,
  \<open>HashBits\<close> is a shift count that C defines, \<open>Amplifier\<close> is positive and the lengths
  are not \<open>0\<close>. The staging arrays are lists here: their capacity
  \<^verbatim>\<open>bsize\<close> is not part of these statements.
\<close>

lemma find_match_start_defined:
  "0 \<le> st \<Longrightarrow> q - p \<le> st \<Longrightarrow> q \<le> int (length b) \<Longrightarrow> p \<le> int (length b) \<Longrightarrow>
   \<exists>r. find_match_start b p q st = Some r"
proof (induction b p q st rule: find_match_start.induct)
  case (1 b p q st)
  show ?case
  proof (cases "q > st")
    case False
    then show ?thesis by (simp add: find_match_start.simps [of b p q st])
  next
    case True
    have x: "rd b (p - 1) = Some (b ! nat (p - 1))" and y: "rd b (q - 1) = Some (b ! nat (q - 1))"
      using True "1.prems" by (simp_all add: rd_def)
    show ?thesis
    proof (cases "b ! nat (p - 1) = b ! nat (q - 1)")
      case False
      then show ?thesis using True x y by (simp add: find_match_start.simps [of b p q st])
    next
      case eq: True
      have "\<exists>r. find_match_start b (p - 1) (q - 1) st = Some r"
        using "1.IH" [OF True x y] eq "1.prems" by simp
      then show ?thesis using True x y eq by (simp add: find_match_start.simps [of b p q st])
    qed
  qed
qed

lemma find_match_end_defined:
  "0 \<le> q \<Longrightarrow> 0 \<le> p \<Longrightarrow> en \<le> int (length b) \<Longrightarrow> en + p - q \<le> int (length b) \<Longrightarrow>
   \<exists>r. find_match_end b p q en = Some r"
proof (induction b p q en rule: find_match_end.induct)
  case (1 b p q en)
  show ?case
  proof (cases "q < en")
    case False
    then show ?thesis by (simp add: find_match_end.simps [of b p q en])
  next
    case True
    have x: "rd b p = Some (b ! nat p)" and y: "rd b q = Some (b ! nat q)"
      using True "1.prems" by (simp_all add: rd_def)
    show ?thesis
    proof (cases "b ! nat p = b ! nat q")
      case False
      then show ?thesis using True x y by (simp add: find_match_end.simps [of b p q en])
    next
      case eq: True
      have "\<exists>r. find_match_end b (p + 1) (q + 1) en = Some r"
        using "1.IH" [OF True x y] eq "1.prems" by simp
      then show ?thesis using True x y eq by (simp add: find_match_end.simps [of b p q en])
    qed
  qed
qed

lemma find_match_start_eq:
  "find_match_start b p q st = Some r \<Longrightarrow> r \<le> j \<Longrightarrow> j < q \<Longrightarrow>
   rd b j \<noteq> None \<and> rd b j = rd b (j - (q - p))"
proof (induction b p q st rule: find_match_start.induct)
  case (1 b p q st)
  show ?case
  proof (cases "q > st")
    case False
    then show ?thesis using "1.prems" by (simp add: find_match_start.simps [of b p q st])
  next
    case True
    then obtain x y where x: "rd b (p - 1) = Some x" and y: "rd b (q - 1) = Some y"
      using "1.prems" by (auto simp add: find_match_start.simps [of b p q st] split: option.splits)
    show ?thesis
    proof (cases "x = y")
      case False
      then show ?thesis
        using "1.prems" True x y by (simp add: find_match_start.simps [of b p q st])
    next
      case eq: True
      then have rec: "find_match_start b (p - 1) (q - 1) st = Some r"
        using "1.prems" True x y by (simp add: find_match_start.simps [of b p q st])
      show ?thesis
      proof (cases "j = q - 1")
        case True
        then have "j - (q - p) = p - 1" by simp
        then show ?thesis using True x y eq by simp
      next
        case False
        then have jl: "j < q - 1" using "1.prems" by simp
        have e: "q - 1 - (p - 1) = q - p" by simp
        from "1.IH" [OF True x y _ rec "1.prems"(2) jl] eq show ?thesis
          unfolding e by blast
      qed
    qed
  qed
qed

lemma find_match_end_eq:
  "find_match_end b p q en = Some r \<Longrightarrow> q \<le> j \<Longrightarrow> j < r \<Longrightarrow>
   rd b j \<noteq> None \<and> rd b j = rd b (j - (q - p))"
proof (induction b p q en rule: find_match_end.induct)
  case (1 b p q en)
  show ?case
  proof (cases "q < en")
    case False
    then show ?thesis using "1.prems" by (simp add: find_match_end.simps [of b p q en])
  next
    case True
    then obtain x y where x: "rd b p = Some x" and y: "rd b q = Some y"
      using "1.prems" by (auto simp add: find_match_end.simps [of b p q en] split: option.splits)
    show ?thesis
    proof (cases "x = y")
      case False
      then show ?thesis
        using "1.prems" True x y by (simp add: find_match_end.simps [of b p q en])
    next
      case eq: True
      then have rec: "find_match_end b (p + 1) (q + 1) en = Some r"
        using "1.prems" True x y by (simp add: find_match_end.simps [of b p q en])
      show ?thesis
      proof (cases "j = q")
        case True
        then have "j - (q - p) = p" by simp
        then show ?thesis using True x y eq by simp
      next
        case False
        then have jl: "q + 1 \<le> j" using "1.prems" by simp
        have e: "q + 1 - (p + 1) = q - p" by simp
        from "1.IH" [OF True x y _ rec jl "1.prems"(3)] eq show ?thesis
          unfolding e by blast
      qed
    qed
  qed
qed

lemma has_dup_from_match:
  assumes d: "1 \<le> d" "d \<le> start" and en: "en \<le> int (length X)"
    and eq: "\<And>j. start \<le> j \<Longrightarrow> j < en \<Longrightarrow> rd X j \<noteq> None \<and> rd X j = rd X (j - d)"
    and n: "int n \<le> en - start"
  shows "has_dup X n"
proof -
  have s0: "0 \<le> start" using d by simp
  have a: "nat start \<in> {0..length X}" using en n s0 by auto
  have b: "nat d \<in> {1..nat start}" using d by auto
  have c: "nat start + n \<le> length X" using en n s0 by linarith
  have e: "X ! (nat start + j) = X ! (nat start + j - nat d)" if "j \<in> {0..<n}" for j
  proof -
    have j: "start \<le> start + int j" "start + int j < en" using that n by auto
    from eq [OF j] have r: "rd X (start + int j) \<noteq> None"
      "rd X (start + int j) = rd X (start + int j - d)" by blast+
    have i1: "nat (start + int j) = nat start + j" using s0 by (simp add: nat_add_distrib)
    have i2: "nat (start + int j - d) = nat start + j - nat d"
      using s0 d by (simp add: nat_diff_distrib nat_add_distrib)
    from r(1) have "rd X (start + int j) = Some (X ! nat (start + int j))"
      by (simp add: rd_def split: if_splits)
    moreover from r have "rd X (start + int j - d) \<noteq> None" by metis
    then have "rd X (start + int j - d) = Some (X ! nat (start + int j - d))"
      by (simp add: rd_def split: if_splits)
    ultimately show ?thesis using r(2) by (simp add: i1 i2)
  qed
  show ?thesis
    unfolding has_dup_def using a b c e by blast
qed

lemma hash_slot_range:
  assumes "cfg_run c"
  shows "0 \<le> hash_slot c h \<and> hash_slot c h < HashSize c"
proof -
  from assms obtain n where n: "HashSize c = 2 ^ n" and m: "HashMask c = HashSize c - 1"
    by (auto simp add: cfg_run_def)
  have "hash_slot c h = sint h mod 2 ^ n"
    by (simp add: hash_slot_def m n and_pow2_minus_1)
  then show ?thesis by (simp add: n)
qed

lemma hash_get_defined:
  assumes "cfg_run c" and "tab_ok c s"
  shows "\<exists>e. hash_get c s = Some e
           \<and> (e = 0 \<or> (0 \<le> (e AND NOT (k1 c)) \<and> (e AND NOT (k1 c)) < int (length (buf s))))"
proof -
  have r: "0 \<le> hash_slot c (hash s)" "hash_slot c (hash s) < int (length (hasharr s))"
    using hash_slot_range [OF assms(1), of "hash s"] assms(2) by (simp_all add: tab_ok_def)
  then have "hasharr s ! nat (hash_slot c (hash s)) \<in> set (hasharr s)"
    by (intro nth_mem) simp
  then show ?thesis
    using r assms(2) by (auto simp add: hash_get_def Let_def tab_ok_def)
qed

lemma probe_defined:
  assumes "cfg_run c" and "tab_ok c s" and "buf_ok c lim s" and "0 \<le> i" and "i < lim"
  shows "\<exists>s'. probe c lim i s = Some s'"
proof -
  from hash_get_defined [OF assms(1,2)] obtain match0 where
    hg: "hash_get c s = Some match0"
    and m0: "match0 = 0 \<or> (0 \<le> (match0 AND NOT (k1 c))
               \<and> (match0 AND NOT (k1 c)) < int (length (buf s)))"
    by blast
  define match where "match = match0 AND NOT (k1 c)"
  define LowBound where "LowBound = (if match < i then i - match
     else if match - lim > i then 0 else i - (match - lim))"
  define HighBound where "HighBound = int (BlockSize c) - match + i"
  show ?thesis
  proof (cases "i \<ge> last_match s \<and> match0 \<noteq> 0 \<and> chksum c (hash s) = (match0 AND k1 c)
      \<and> \<not> (match \<ge> i \<and> match < lim)")
    case False
    then show ?thesis
      by (auto simp add: probe_def hg Let_def match_def)
  next
    case True
    then have mr: "0 \<le> match" "match < int (length (buf s))"
      using m0 by (simp_all add: match_def)
    have bl: "lim \<le> int (length (buf s))" "int (length (buf s)) \<le> int (BlockSize c)"
      "int (length (buf s)) = lim \<or> int (length (buf s)) = int (BlockSize c)"
      using assms(3) by (simp_all add: buf_ok_def)
    have lb: "0 \<le> LowBound" "i - match \<le> LowBound"
      using True mr by (auto simp add: LowBound_def)
    have "\<exists>r. find_match_start (buf s) match i (max (last_match s) LowBound) = Some r"
      using lb mr bl assms(4,5) by (intro find_match_start_defined) auto
    then obtain start where
      fs: "find_match_start (buf s) match i (max (last_match s) LowBound) = Some start" ..
    have hb: "min lim HighBound + match - i \<le> int (length (buf s))"
    proof (cases "match < i")
      case True
      then show ?thesis using bl by simp
    next
      case False
      then have "lim \<le> match" using \<open>i \<ge> last_match s \<and> _\<close> by simp
      then have "int (length (buf s)) = int (BlockSize c)" using bl mr by linarith
      then show ?thesis by (simp add: HighBound_def)
    qed
    have "\<exists>r. find_match_end (buf s) match i (min lim HighBound) = Some r"
      using hb mr bl assms(4) by (intro find_match_end_defined) auto
    then obtain end' where
      fe: "find_match_end (buf s) match i (min lim HighBound) = Some end'" ..
    show ?thesis
      using True fs fe
      by (simp add: probe_def hg Let_def match_def [symmetric] LowBound_def [symmetric]
          HighBound_def [symmetric])
  qed
qed

lemma probe_nodup:
  assumes pr: "probe c lim i s = Some s'" and tab: "tab_ok c s" and cr: "cfg_run c"
    and nd: "nodup c lim s" and i: "0 \<le> i" "i < lim"
  shows "s' = s"
proof (rule ccontr)
  assume ne: "s' \<noteq> s"
  then have ge: "i \<ge> last_match s"
    using pr by (auto simp add: probe_def split: if_splits)
  from hash_get_defined [OF cr tab] obtain match0 where
    hg: "hash_get c s = Some match0"
    and m0: "match0 = 0 \<or> (0 \<le> (match0 AND NOT (k1 c))
               \<and> (match0 AND NOT (k1 c)) < int (length (buf s)))"
    by blast
  define match where "match = match0 AND NOT (k1 c)"
  define LowBound where "LowBound = (if match < i then i - match
     else if match - lim > i then 0 else i - (match - lim))"
  define HighBound where "HighBound = int (BlockSize c) - match + i"
  from ne pr ge hg have nz: "match0 \<noteq> 0" and nm: "\<not> (match \<ge> i \<and> match < lim)"
    by (auto simp add: probe_def Let_def match_def split: if_splits)
  from ne pr ge hg nm obtain start where
    st: "find_match_start (buf s) match i (max (last_match s) LowBound) = Some start"
    by (auto simp add: probe_def Let_def match_def LowBound_def split: if_splits bind_splits)
  from ne pr ge hg nm st obtain end' where
    en: "find_match_end (buf s) match i (min lim HighBound) = Some end'"
    by (auto simp add: probe_def Let_def match_def LowBound_def HighBound_def
        split: if_splits bind_splits)
  from ne pr ge hg nm st en have
    len: "(if i - match < Barrier c then MinMatchLen c else SmallestLen c) \<le> end' - start"
    by (auto simp add: probe_def Let_def match_def [symmetric] LowBound_def [symmetric]
        HighBound_def [symmetric] split: if_splits)
  have bl: "int (length (buf s)) = lim" and nh: "\<not> has_dup (buf s) (nat (SmallestLen c))"
    and sp: "0 < SmallestLen c" and sm: "SmallestLen c \<le> MinMatchLen c"
    using nd by (simp_all add: nodup_def)
  have mr: "0 \<le> match" "match < lim" using m0 nz bl by (simp_all add: match_def)
  then have mi: "match < i" using nm by simp
  then have lb: "LowBound = i - match" by (simp add: LowBound_def)
  have d1: "1 \<le> i - match" using mi by simp
  have b1: "start \<le> i" "i - match \<le> start"
    using find_match_start_bounds [OF st] mr lb by auto
  have b2: "i \<le> end'" "end' \<le> lim"
    using find_match_end_bounds [OF en] i by auto
  have eq: "rd (buf s) j \<noteq> None \<and> rd (buf s) j = rd (buf s) (j - (i - match))"
    if "start \<le> j" "j < end'" for j
  proof (cases "j < i")
    case True
    from find_match_start_eq [OF st that(1) True] show ?thesis .
  next
    case False
    then have "i \<le> j" by simp
    from find_match_end_eq [OF en this that(2)] show ?thesis .
  qed
  have "int (nat (SmallestLen c)) \<le> end' - start"
    using len sm sp by (simp split: if_splits)
  from has_dup_from_match [of "i - match" start end' "buf s", OF d1 b1(2) _ eq this]
  have "has_dup (buf s) (nat (SmallestLen c))" using b2 bl by simp
  then show False using nh by simp
qed

lemma hash_put_defined:
  assumes "cfg_run c" and "tab_ok c s" and "i AND k1 c = 0" and "0 \<le> i"
    and "i < int (length (buf s))"
  shows "\<exists>s'. hash_put c i s = Some s' \<and> tab_ok c s'"
proof -
  have r: "0 \<le> hash_slot c (hash s)" "hash_slot c (hash s) < int (length (hasharr s))"
    using hash_slot_range [OF assms(1), of "hash s"] assms(2) by (simp_all add: tab_ok_def)
  define s' where "s' = s\<lparr>hasharr := (hasharr s)[nat (hash_slot c (hash s)) := i + chksum c (hash s)],
      ilog := ilog s @ [(i, chksum c (hash s))]\<rparr>"
  have hp: "hash_put c i s = Some s'"
    using r by (simp add: hash_put_def Let_def s'_def)
  have "(i + chksum c (hash s)) AND NOT (k1 c) = i"
    using pack_or [OF assms(3), of "drop_bit 28 (sint (hash s))"]
      pack_pos [OF assms(3), of "drop_bit 28 (sint (hash s))"]
    by (simp add: chksum_def)
  then have new: "0 \<le> ((i + chksum c (hash s)) AND NOT (k1 c))
      \<and> ((i + chksum c (hash s)) AND NOT (k1 c)) < int (length (buf s))"
    using assms(4,5) by simp
  have "tab_ok c s'"
    using assms(2) new
    by (auto simp add: tab_ok_def s'_def dest!: set_update_subset_insert [THEN subsetD])
  then show ?thesis using hp by blast
qed

lemma roll_defined:
  assumes "0 \<le> i" and "0 \<le> L c" and "i + L c < int (length (buf s))"
  shows "\<exists>h. roll c i s = Some (s\<lparr>hash := h\<rparr>)"
proof -
  have "roll c i s = Some (s\<lparr>hash := update_hash (cPOWER_PRIME_L c) (hash s) (buf s ! nat i)
                 (buf s ! nat (i + L c))\<rparr>)"
    using assms by (simp add: roll_def hash_step_def rd_def)
  then show ?thesis by (rule exI)
qed

lemma tab_ok_hash [simp]: "tab_ok c (s\<lparr>hash := h\<rparr>) = tab_ok c s"
  by (simp add: tab_ok_def)

lemma buf_ok_same_frame: "same_frame s s' \<Longrightarrow> buf_ok c lim s' = buf_ok c lim s"
  by (simp add: same_frame_def buf_ok_def)

lemma nodup_same_frame: "same_frame s s' \<Longrightarrow> nodup c lim s' = nodup c lim s"
  by (simp add: same_frame_def nodup_def)

lemma step_total:
  assumes cr: "cfg_run c" and inv: "run_inv c lim first s" and i: "0 \<le> i" "i + L c < lim"
  shows "\<exists>s'. step c lim i s = Some s' \<and> run_inv c lim first s' \<and> same_frame s s'
           \<and> (nodup c lim s \<longrightarrow> mlog s' = mlog s \<and> last_match s' = last_match s)"
proof -
  have ok: "cfg_ok c" using cr by (simp add: cfg_run_def)
  have Lp: "0 < L c" using ok by (rule cfg_ok_L_pos)
  have il: "i < lim" using i Lp by simp
  have si: "scan_inv c lim first s" and tab: "tab_ok c s" and bo: "buf_ok c lim s"
    using inv by (simp_all add: run_inv_def)
  have st: "staged c lim first s" using si by (simp add: scan_inv_def)
  from probe_defined [OF cr tab bo i(1) il] obtain s1 where p: "probe c lim i s = Some s1" ..
  note ps = probe_staged [OF p less_imp_le [OF il] st]
  have f1: "same_frame s s1" and h1: "hasharr s1 = hasharr s" using ps by simp_all
  have tab1: "tab_ok c s1" using tab f1 h1 by (simp add: tab_ok_def same_frame_def)
  have bo1: "buf_ok c lim s1" using bo buf_ok_same_frame [OF f1] by simp
  have len: "lim \<le> int (length (buf s1))" using bo1 by (simp add: buf_ok_def)
  have "\<exists>s2. (if (i AND k1 c) = 0 then hash_put c i s1 else Some s1) = Some s2 \<and> tab_ok c s2"
  proof (cases "(i AND k1 c) = 0")
    case True
    then show ?thesis
      using hash_put_defined [OF cr tab1 True i(1)] il len by simp
  next
    case False
    then show ?thesis using tab1 by simp
  qed
  then obtain s2 where h: "(if (i AND k1 c) = 0 then hash_put c i s1 else Some s1) = Some s2"
    and tab2: "tab_ok c s2" by blast
  have f2: "same_frame s1 s2"
    using h by (auto simp add: hash_put_def Let_def same_frame_def split: if_splits)
  have "i + L c < int (length (buf s2))"
    using f2 len i by (simp add: same_frame_def)
  from roll_defined [OF i(1) less_imp_le [OF Lp] this] obtain hh where
    r: "roll c i s2 = Some (s2\<lparr>hash := hh\<rparr>)" ..
  have stp: "step c lim i s = Some (s2\<lparr>hash := hh\<rparr>)"
    using p h r by (simp add: step_def)
  note sinv = step_inv [OF stp ok less_imp_le [OF il] si]
  have fr: "same_frame s (s2\<lparr>hash := hh\<rparr>)" using sinv by simp
  have "run_inv c lim first (s2\<lparr>hash := hh\<rparr>)"
    using sinv tab2 bo buf_ok_same_frame [OF fr] by (simp add: run_inv_def)
  moreover have "mlog (s2\<lparr>hash := hh\<rparr>) = mlog s \<and> last_match (s2\<lparr>hash := hh\<rparr>) = last_match s"
    if "nodup c lim s"
  proof -
    have "s1 = s" using probe_nodup [OF p tab cr that i(1) il] .
    moreover have "mlog s2 = mlog s1 \<and> last_match s2 = last_match s1"
      using h by (auto simp add: hash_put_def Let_def split: if_splits)
    ultimately show ?thesis by simp
  qed
  ultimately show ?thesis using stp fr by blast
qed

lemma same_frame_mlog_trans:
  "same_frame s s1 \<Longrightarrow> same_frame s1 s2 \<Longrightarrow> same_frame s s2"
  by (rule same_frame_trans)

lemma probe_loop_total:
  "cfg_run c \<Longrightarrow> run_inv c lim first s \<Longrightarrow> 0 \<le> i \<Longrightarrow> i + int n + L c \<le> lim \<Longrightarrow>
   \<exists>s'. probe_loop c lim n i s = Some (i + int n, s') \<and> run_inv c lim first s'
          \<and> same_frame s s'
          \<and> (nodup c lim s \<longrightarrow> mlog s' = mlog s \<and> last_match s' = last_match s)"
proof (induction n arbitrary: i s)
  case 0
  then show ?case by simp
next
  case (Suc n)
  have "i + L c < lim" using Suc.prems(4) by simp
  from step_total [OF Suc.prems(1,2,3) this] obtain s1 where
    st: "step c lim i s = Some s1" and inv1: "run_inv c lim first s1"
    and f1: "same_frame s s1"
    and nd1: "nodup c lim s \<longrightarrow> mlog s1 = mlog s \<and> last_match s1 = last_match s"
    by blast
  have "\<exists>s'. probe_loop c lim n (i + 1) s1 = Some (i + 1 + int n, s') \<and> run_inv c lim first s'
          \<and> same_frame s1 s'
          \<and> (nodup c lim s1 \<longrightarrow> mlog s' = mlog s1 \<and> last_match s' = last_match s1)"
    using Suc.prems by (intro Suc.IH [OF Suc.prems(1) inv1]) simp_all
  then obtain s' where
    pl: "probe_loop c lim n (i + 1) s1 = Some (i + 1 + int n, s')"
    and inv': "run_inv c lim first s'" and f2: "same_frame s1 s'"
    and nd2: "nodup c lim s1 \<longrightarrow> mlog s' = mlog s1 \<and> last_match s' = last_match s1"
    by blast
  have e: "i + 1 + int n = i + int (Suc n)" by simp
  have a: "probe_loop c lim (Suc n) i s = Some (i + int (Suc n), s')"
    using st pl unfolding e by simp
  have b: "same_frame s s'" using f1 f2 by (rule same_frame_trans)
  have d: "nodup c lim s \<longrightarrow> mlog s' = mlog s \<and> last_match s' = last_match s"
    using nd1 nd2 nodup_same_frame [OF f1, of c lim] by simp
  show ?case using a inv' b d by blast
qed

lemma hash_advance_defined:
  "0 \<le> i \<Longrightarrow> 0 \<le> w \<Longrightarrow> i + int n + w \<le> int (length b) \<Longrightarrow>
   \<exists>h'. hash_advance cP w b n i h = Some (i + int n, h')"
proof (induction n arbitrary: i h)
  case 0
  then show ?case by simp
next
  case (Suc n)
  have "hash_step cP w b i h = Some (update_hash cP h (b ! nat i) (b ! nat (i + w)))"
    using Suc.prems by (simp add: hash_step_def rd_def)
  moreover have "\<exists>h'. hash_advance cP w b n (i + 1) (update_hash cP h (b ! nat i) (b ! nat (i + w)))
      = Some (i + 1 + int n, h')"
    using Suc.prems by (intro Suc.IH) simp_all
  moreover have "i + 1 + int n = i + int (Suc n)" by simp
  ultimately show ?case by auto
qed

lemma roll_loop_defined:
  assumes "0 \<le> i" and "0 \<le> L c" and "i + int n + L c \<le> int (length (buf s))"
  shows "\<exists>h. roll_loop c n i s = Some (i + int n, s\<lparr>hash := h\<rparr>)"
proof -
  from hash_advance_defined [OF assms, of "cPOWER_PRIME_L c" "hash s"] obtain h' where
    "hash_advance (cPOWER_PRIME_L c) (L c) (buf s) n i (hash s) = Some (i + int n, h')" ..
  then have "roll_loop c n i s = Some (i + int n, s\<lparr>hash := h'\<rparr>)"
    by (simp add: roll_loop_def)
  then show ?thesis by (rule exI)
qed

lemma run_inv_hash [simp]: "run_inv c lim first (s\<lparr>hash := h\<rparr>) = run_inv c lim first s"
  by (simp add: run_inv_def buf_ok_def)

lemma run_inv_last_i [simp]: "run_inv c lim first (s\<lparr>last_i := i\<rparr>) = run_inv c lim first s"
  by (simp add: run_inv_def buf_ok_def tab_ok_def)

lemma nodup_last_i [simp]: "nodup c lim (s\<lparr>last_i := i\<rparr>) = nodup c lim s"
  by (simp add: nodup_def)

lemma skip_loop_total:
  "cfg_run c \<Longrightarrow> run_inv c lim first s \<Longrightarrow> k c dvd i \<Longrightarrow> 0 \<le> i \<Longrightarrow> i \<le> hi \<Longrightarrow>
   L c dvd hi \<Longrightarrow> hi + L c \<le> lim \<Longrightarrow>
   \<exists>i' s'. skip_loop c i s = Some (i', s') \<and> run_inv c lim first s' \<and> same_frame s s'
            \<and> mlog s' = mlog s \<and> last_match s' = last_match s"
proof (induction "nat (hi - i)" arbitrary: i s rule: less_induct)
  case less
  have ok: "cfg_ok c" using less.prems(1) by (simp add: cfg_run_def)
  have Lp: "0 < L c" using ok by (rule cfg_ok_L_pos)
  have kp: "0 < k c" using ok by (rule cfg_ok_k_pos)
  show ?case
  proof (cases "(i AND (L c - 1)) \<noteq> 0")
    case False
    then have "skip_loop c i s = Some (i, s)"
      by (subst skip_loop.simps) simp
    then show ?thesis using less.prems(2) by simp
  next
    case True
    have si: "scan_inv c lim first s" and tab: "tab_ok c s" and bo: "buf_ok c lim s"
      using less.prems(2) by (simp_all add: run_inv_def)
    have len: "lim \<le> int (length (buf s))" using bo by (simp add: buf_ok_def)
    have nd: "\<not> L c dvd i" using True ok by (simp add: cfg_ok_L1)
    then have "i \<noteq> hi" using less.prems(6) by auto
    then have lt: "i < hi" using less.prems(5) by simp
    have "k c dvd hi" using cfg_ok_k_dvd_L [OF ok] less.prems(6) by (rule dvd_trans)
    then have "k c dvd hi - i" using less.prems(3) by (rule dvd_diff)
    then have kle: "k c \<le> hi - i" using lt by (intro zdvd_imp_le) simp_all
    have k1: "i AND k1 c = 0" using ok less.prems(3) by (simp add: cfg_ok_k1)
    have "i < int (length (buf s))" using lt less.prems(7) len Lp by simp
    from hash_put_defined [OF less.prems(1) tab k1 less.prems(4) this] obtain s1 where
      hp: "hash_put c i s = Some s1" and tab1: "tab_ok c s1" by blast
    note hi1 = hash_put_inv [OF hp ok k1 si]
    have f1: "same_frame s s1" using hi1 by simp
    have inv1: "run_inv c lim first s1"
      using hi1 tab1 bo buf_ok_same_frame [OF f1] by (simp add: run_inv_def)
    have m1: "mlog s1 = mlog s"
      using hp by (auto simp add: hash_put_def Let_def split: if_splits)
    have "i + int (nat (k c)) + L c \<le> int (length (buf s1))"
      using kle kp less.prems(7) len f1 by (simp add: same_frame_def)
    from roll_loop_defined [OF less.prems(4) less_imp_le [OF Lp] this] obtain h where
      rl: "roll_loop c (nat (k c)) i s1 = Some (i + int (nat (k c)), s1\<lparr>hash := h\<rparr>)" ..
    have ik: "i + int (nat (k c)) = i + k c" using kp by simp
    have "\<exists>i' s'. skip_loop c (i + k c) (s1\<lparr>hash := h\<rparr>) = Some (i', s')
        \<and> run_inv c lim first s' \<and> same_frame (s1\<lparr>hash := h\<rparr>) s'
        \<and> mlog s' = mlog (s1\<lparr>hash := h\<rparr>) \<and> last_match s' = last_match (s1\<lparr>hash := h\<rparr>)"
    proof (rule less.hyps)
      show "nat (hi - (i + k c)) < nat (hi - i)" using kp lt by simp
      show "cfg_run c" by fact
      show "run_inv c lim first (s1\<lparr>hash := h\<rparr>)" using inv1 by simp
      show "k c dvd i + k c" using less.prems(3) by simp
      show "0 \<le> i + k c" using less.prems(4) kp by simp
      show "i + k c \<le> hi" using kle by simp
      show "L c dvd hi" by fact
      show "hi + L c \<le> lim" by fact
    qed
    then obtain i' s' where
      rec: "skip_loop c (i + k c) (s1\<lparr>hash := h\<rparr>) = Some (i', s')"
      and inv': "run_inv c lim first s'" and f2: "same_frame (s1\<lparr>hash := h\<rparr>) s'"
      and m2: "mlog s' = mlog s1" and l2: "last_match s' = last_match s1"
      by auto
    have a: "skip_loop c i s = Some (i', s')"
      using True hp rl rec unfolding ik by (subst skip_loop.simps) simp
    have b: "same_frame s s'" using f1 f2 by (simp add: same_frame_def)
    show ?thesis using a inv' b m1 m2 l2 hi1 by auto
  qed
qed

lemma scan_loop_total:
  "cfg_run c \<Longrightarrow> run_inv c lim first s \<Longrightarrow> L c dvd last_i s \<Longrightarrow> 0 \<le> last_i s \<Longrightarrow>
   \<exists>s'. scan_loop c lim s = Some s' \<and> run_inv c lim first s' \<and> scan_frame s s'
          \<and> 0 \<le> last_i s'
          \<and> (nodup c lim s \<longrightarrow> mlog s' = mlog s \<and> last_match s' = last_match s)"
proof (induction "nat (lim - last_i s)" arbitrary: s rule: less_induct)
  case less
  have ok: "cfg_ok c" and t1: "1 \<le> test c" using less.prems(1) by (simp_all add: cfg_run_def)
  have Lp: "0 < L c" using ok by (rule cfg_ok_L_pos)
  have tl: "test c \<le> L c" and kt: "k c dvd test c"
    using ok by (auto simp add: cfg_ok_def)
  show ?case
  proof (cases "last_i s + L c * 2 < lim")
    case False
    then have "scan_loop c lim s = Some s"
      by (subst scan_loop.simps) simp
    then show ?thesis using less.prems by (simp add: scan_frame_def)
  next
    case True
    define i0 where "i0 = last_i s"
    have nt: "int (nat (test c)) = test c" using t1 by simp
    have "i0 + int (nat (test c)) + L c \<le> lim" using True tl nt by (simp add: i0_def)
    from probe_loop_total [OF less.prems(1,2) less.prems(4) [folded i0_def] this]
    obtain s1 where pl: "probe_loop c lim (nat (test c)) i0 s = Some (i0 + test c, s1)"
      and inv1: "run_inv c lim first s1" and f1: "same_frame s s1"
      and nd1: "nodup c lim s \<longrightarrow> mlog s1 = mlog s \<and> last_match s1 = last_match s"
      unfolding nt by blast
    have ki: "k c dvd i0"
      using cfg_ok_k_dvd_L [OF ok] less.prems(3) unfolding i0_def by (rule dvd_trans)
    have kd: "k c dvd i0 + test c" using ki kt by simp
    have Lh: "L c dvd i0 + L c" using less.prems(3) by (simp add: i0_def)
    have "\<exists>i' s'. skip_loop c (i0 + test c) s1 = Some (i', s') \<and> run_inv c lim first s'
        \<and> same_frame s1 s' \<and> mlog s' = mlog s1 \<and> last_match s' = last_match s1"
      using less.prems(4) t1 tl True
      by (intro skip_loop_total [OF less.prems(1) inv1 kd _ _ Lh]) (simp_all add: i0_def)
    then obtain i2 s2 where sl: "skip_loop c (i0 + test c) s1 = Some (i2, s2)"
      and inv2: "run_inv c lim first s2" and f2: "same_frame s1 s2"
      and m2: "mlog s2 = mlog s1" and l2: "last_match s2 = last_match s1"
      by blast
    have si1: "scan_inv c lim first s1" using inv1 by (simp add: run_inv_def)
    have "i0 + test c \<le> i0 + L c" using tl by simp
    from skip_loop_inv [OF sl ok kd this Lh si1]
    have b: "L c dvd i2" "i0 + test c \<le> i2" "i2 \<le> i0 + L c" by simp_all
    define s3 where "s3 = s2\<lparr>last_i := i2\<rparr>"
    have "\<exists>s'. scan_loop c lim s3 = Some s' \<and> run_inv c lim first s' \<and> scan_frame s3 s'
          \<and> 0 \<le> last_i s'
          \<and> (nodup c lim s3 \<longrightarrow> mlog s' = mlog s3 \<and> last_match s' = last_match s3)"
    proof (rule less.hyps)
      show "nat (lim - last_i s3) < nat (lim - last_i s)"
        using b t1 True Lp by (simp add: s3_def i0_def)
      show "cfg_run c" by fact
      show "run_inv c lim first s3" using inv2 by (simp add: s3_def)
      show "L c dvd last_i s3" using b by (simp add: s3_def)
      show "0 \<le> last_i s3" using b t1 less.prems(4) by (simp add: s3_def i0_def)
    qed
    then obtain s' where rec: "scan_loop c lim s3 = Some s'"
      and inv': "run_inv c lim first s'" and f3: "scan_frame s3 s'" and li: "0 \<le> last_i s'"
      and nd3: "nodup c lim s3 \<longrightarrow> mlog s' = mlog s3 \<and> last_match s' = last_match s3"
      by blast
    have a: "scan_loop c lim s = Some s'"
      using True pl sl rec unfolding i0_def s3_def nt by (subst scan_loop.simps) simp
    have fr: "scan_frame s s'"
      using f1 f2 f3 by (simp add: same_frame_def scan_frame_def s3_def)
    have nd: "nodup c lim s \<longrightarrow> mlog s' = mlog s \<and> last_match s' = last_match s"
    proof
      assume n: "nodup c lim s"
      then have "nodup c lim s3"
        using nodup_same_frame [OF f1, of c lim] nodup_same_frame [OF f2, of c lim]
        by (simp add: s3_def)
      then show "mlog s' = mlog s \<and> last_match s' = last_match s"
        using nd3 nd1 n m2 l2 by (simp add: s3_def)
    qed
    show ?thesis using a inv' fr li nd by blast
  qed
qed

lemma write_literals_defined:
  "length ofss \<le> length dls \<Longrightarrow>
   (\<forall>j<length ofss. 0 \<le> ofss ! j \<and> 0 \<le> dls ! j \<and> ofss ! j + dls ! j \<le> int (length b)) \<Longrightarrow>
   \<exists>r. write_literals b ofss dls = Some r"
proof (induction ofss arbitrary: dls)
  case Nil
  show ?case by simp
next
  case (Cons x ofss)
  then obtain d ds where dls: "dls = d # ds" by (cases dls) auto
  have h: "0 \<le> x \<and> 0 \<le> d \<and> x + d \<le> int (length b)"
    using Cons.prems(2) [rule_format, of 0] dls by simp
  have "\<forall>j<length ofss. 0 \<le> ofss ! j \<and> 0 \<le> ds ! j \<and> ofss ! j + ds ! j \<le> int (length b)"
  proof (intro allI impI)
    fix j assume "j < length ofss"
    then show "0 \<le> ofss ! j \<and> 0 \<le> ds ! j \<and> ofss ! j + ds ! j \<le> int (length b)"
      using Cons.prems(2) [rule_format, of "Suc j"] dls by simp
  qed
  moreover have "length ofss \<le> length ds" using Cons.prems(1) dls by simp
  ultimately obtain r where "write_literals b ofss ds = Some r"
    using Cons.IH by blast
  then show ?case using h dls by (simp add: rd_range_def)
qed

lemma linked_nonneg:
  "linked first es \<Longrightarrow> list_all (ev_ok c lim) es \<Longrightarrow> 0 \<le> first \<Longrightarrow>
   \<forall>e\<in>set es. 0 \<le> ev_last_match e"
proof (induction es arbitrary: first)
  case Nil
  show ?case by simp
next
  case (Cons e es)
  have "0 \<le> ev_end e" using Cons.prems by (simp add: ev_ok_def)
  then have "\<forall>e\<in>set es. 0 \<le> ev_last_match e"
    using Cons.prems by (intro Cons.IH) simp_all
  then show ?case using Cons.prems by simp
qed

lemma staged_literal_runs:
  assumes "staged c lim first s" and "0 \<le> first" and "lim \<le> int (length b)"
  shows "length (dataOffsets s) = length (datalens s)
         \<and> (\<forall>j<length (dataOffsets s). 0 \<le> dataOffsets s ! j \<and> 0 \<le> datalens s ! j
               \<and> dataOffsets s ! j + datalens s ! j \<le> int (length b))"
proof -
  have a: "dataOffsets s = map ev_last_match (mlog s)"
    and b: "datalens s = map (\<lambda>e. ev_start e - ev_last_match e) (mlog s)"
    and l: "linked first (mlog s)" and ok: "list_all (ev_ok c lim) (mlog s)"
    using assms(1) by (simp_all add: staged_def)
  note nn = linked_nonneg [OF l ok assms(2)]
  have "0 \<le> dataOffsets s ! j \<and> 0 \<le> datalens s ! j
      \<and> dataOffsets s ! j + datalens s ! j \<le> int (length b)" if "j < length (dataOffsets s)" for j
  proof -
    have j: "j < length (mlog s)" using that a by simp
    then have m: "mlog s ! j \<in> set (mlog s)" by simp
    have e: "ev_ok c lim (mlog s ! j)" using ok j by (simp add: list_all_length)
    have "0 \<le> ev_last_match (mlog s ! j)" using nn m by blast
    then show ?thesis
      using e j assms(3) by (simp add: a b ev_ok_def)
  qed
  then show ?thesis using a b by simp
qed

lemma block_end_total:
  assumes st: "staged c (Base s + Size) first s" and f: "0 \<le> first"
    and fl: "first \<le> Base s + Size"
    and li: "0 \<le> last_i s" "last_i s \<le> Base s + Size"
    and len: "Base s + Size \<le> int (length (buf s))" and sz: "0 \<le> Base s + Size"
  shows "\<exists>s'. block_end c Size first s = Some s' \<and> buf s' = buf s \<and> hasharr s' = hasharr s
           \<and> Base s' = (if Base s + Size = int (BlockSize c) then 0 else Base s + Size)
           \<and> 0 \<le> last_i s' \<and> 0 \<le> last_match s'"
proof -
  define lim where "lim = Base s + Size"
  define wrap where "wrap = (lim = int (BlockSize c))"
  define lix where "lix = (if wrap then lim else last_i s)"
  define dofs where "dofs = (if last_match s > lix then dataOffsets s
                         else dataOffsets s @ [last_match s])"
  define dls where "dls = (if last_match s > lix then datalens s @ [0]
                      else datalens s @ [lix - last_match s])"
  note runs = staged_literal_runs [OF st f len]
  have ce: "first \<le> last_match s" "last_match s \<le> lim"
    using chain_end_bounds [of first "mlog s" c lim] st fl
    by (simp_all add: staged_def lim_def)
  have lil: "0 \<le> lix" "lix \<le> lim" using li sz by (simp_all add: lix_def lim_def)
  have l1: "length dofs \<le> length dls" using runs by (simp add: dofs_def dls_def)
  have l2: "\<forall>j<length dofs. 0 \<le> dofs ! j \<and> 0 \<le> dls ! j
      \<and> dofs ! j + dls ! j \<le> int (length (buf s))"
  proof (intro allI impI)
    fix j assume j: "j < length dofs"
    show "0 \<le> dofs ! j \<and> 0 \<le> dls ! j \<and> dofs ! j + dls ! j \<le> int (length (buf s))"
    proof (cases "j < length (dataOffsets s)")
      case True
      then show ?thesis using runs by (simp add: dofs_def dls_def nth_append)
    next
      case False
      then have "j = length (dataOffsets s)" "\<not> last_match s > lix"
        using j by (auto simp add: dofs_def split: if_splits)
      then show ?thesis
        using runs ce f lil len by (simp add: dofs_def dls_def nth_append lim_def)
    qed
  qed
  from write_literals_defined [OF l1 l2] obtain lits where
    wl: "write_literals (buf s) dofs dls = Some lits" ..
  show ?thesis
    using wl ce f lil
    by (auto simp add: block_end_def Let_def dofs_def dls_def lix_def wrap_def lim_def)
qed

lemma hash_init_defined:
  "0 \<le> i \<Longrightarrow> i + int n \<le> int (length b) \<Longrightarrow> \<exists>r. hash_init cP b n i h = Some r"
proof (induction n arbitrary: i h)
  case 0
  show ?case by simp
next
  case (Suc n)
  have "rd b i = Some (b ! nat i)" using Suc.prems by (simp add: rd_def)
  moreover have "\<exists>r. hash_init cP b n (i + 1) (update_hash cP h 0 (b ! nat i)) = Some r"
    using Suc.prems by (intro Suc.IH) simp_all
  ultimately show ?case by simp
qed

lemma cycle_total:
  assumes cr: "cfg_run c" and ci: "cyc_inv c s1"
    and nn: "0 \<le> last_i s1" "0 \<le> last_match s1" "0 \<le> Base s1"
    and tab: "tab_ok c s1" and sz: "0 < Size" and le: "Base s1 + Size \<le> int (BlockSize c)"
    and bo: "buf_ok c (Base s1 + Size) s1"
  shows "\<exists>s4. cycle c Size s1 = Some s4 \<and> base_inv c s4 \<and> tab_ok c s4 \<and> buf s4 = buf s1"
proof -
  have ok: "cfg_ok c" using cr by (simp add: cfg_run_def)
  define lim where "lim = Base s1 + Size"
  have len: "lim \<le> int (length (buf s1))" using bo by (simp add: buf_ok_def lim_def)
  have "\<exists>s2. (if Base s1 = 0
          then map_option (\<lambda>h. s1\<lparr>hash := h\<rparr>)
                 (hash_init (cPOWER_PRIME_L c) (buf s1) (nat (min (L c) Size)) 0 0)
          else Some s1) = Some s2 \<and> (\<exists>h. s2 = s1\<lparr>hash := h\<rparr>)"
  proof (cases "Base s1 = 0")
    case True
    have "0 + int (nat (min (L c) Size)) \<le> int (length (buf s1))"
      using len sz True by (simp add: lim_def min_def)
    from hash_init_defined [OF _ this, of "cPOWER_PRIME_L c" 0] obtain r where
      "hash_init (cPOWER_PRIME_L c) (buf s1) (nat (min (L c) Size)) 0 0 = Some r" by auto
    then show ?thesis using True by auto
  next
    case False
    have "s1 = s1\<lparr>hash := hash s1\<rparr>" by simp
    then have "\<exists>h. s1 = s1\<lparr>hash := h\<rparr>" by (rule exI [of _ "hash s1"])
    then show ?thesis using False by simp
  qed
  then obtain s2 h where s2: "(if Base s1 = 0
          then map_option (\<lambda>h. s1\<lparr>hash := h\<rparr>)
                 (hash_init (cPOWER_PRIME_L c) (buf s1) (nat (min (L c) Size)) 0 0)
          else Some s1) = Some s2" and s2': "s2 = s1\<lparr>hash := h\<rparr>"
    by blast
  define r where "r = s2\<lparr>literals := 0, lens := [], offsets := [], datalens := [],
                   dataOffsets := [], mlog := []\<rparr>"
  have inv2: "cyc_inv c s2" using ci by (simp add: s2' cyc_inv_def)
  have si: "scan_inv c lim (last_match s2) r"
    using inv2 by (simp add: scan_inv_def staged_def r_def cyc_inv_def)
  have ri: "run_inv c lim (last_match s2) r"
    using si tab bo by (simp add: run_inv_def r_def s2' tab_ok_def buf_ok_def lim_def)
  have Ld: "L c dvd last_i r" and l0: "0 \<le> last_i r" and ll: "last_i r \<le> lim"
    using inv2 nn sz by (simp_all add: r_def cyc_inv_def s2' lim_def)
  from scan_loop_total [OF cr ri Ld l0] obtain s3 where
    sc: "scan_loop c lim r = Some s3" and ri3: "run_inv c lim (last_match s2) s3"
    and sf: "scan_frame r s3" and l3: "0 \<le> last_i s3"
    by blast
  note a = scan_loop_inv [OF sc ok Ld ll si]
  have b3: "Base s3 = Base s1" "buf s3 = buf s1"
    using sf by (simp_all add: scan_frame_def r_def s2')
  have st3: "staged c (Base s3 + Size) (last_match s2) s3"
    using ri3 by (simp add: run_inv_def scan_inv_def b3 lim_def)
  have "\<exists>s'. block_end c Size (last_match s2) s3 = Some s' \<and> buf s' = buf s3
           \<and> hasharr s' = hasharr s3
           \<and> Base s' = (if Base s3 + Size = int (BlockSize c) then 0 else Base s3 + Size)
           \<and> 0 \<le> last_i s' \<and> 0 \<le> last_match s'"
    using nn sz a l3 len inv2
    by (intro block_end_total [OF st3]) (simp_all add: b3 s2' lim_def cyc_inv_def)
  then obtain s4 where be: "block_end c Size (last_match s2) s3 = Some s4"
    and b4: "buf s4 = buf s3" "hasharr s4 = hasharr s3"
      "Base s4 = (if Base s3 + Size = int (BlockSize c) then 0 else Base s3 + Size)"
      "0 \<le> last_i s4" "0 \<le> last_match s4"
    by blast
  have cy: "cycle c Size s1 = Some s4"
    using s2 sc be by (simp add: cycle_def r_def lim_def s2')
  have ci4: "cyc_inv c s4"
    using cycle_inv [OF cy ok ci sz le] .
  have tab3: "tab_ok c s3" using ri3 by (simp add: run_inv_def)
  have tab4: "tab_ok c s4" using tab3 b4 by (simp add: tab_ok_def)
  have bo': "int (length (buf s1)) \<le> int (BlockSize c)"
    "int (length (buf s1)) = lim \<or> int (length (buf s1)) = int (BlockSize c)"
    using bo by (simp_all add: buf_ok_def lim_def)
  have "base_inv c s4"
    using ci4 b4 b3 bo' len nn sz by (auto simp add: base_inv_def lim_def)
  then show ?thesis using cy tab4 b4 b3 by simp
qed

lemma load_length:
  assumes "0 \<le> pos" and "0 \<le> Size" and "pos \<le> int (length (buf s))"
    and "Size \<le> int (length input)"
  shows "int (length (buf (load input Size pos s))) = max (int (length (buf s))) (pos + Size)"
  using assms by (auto simp add: load_def max_def min_def)

lemma rep_cycles_total:
  "cfg_run c \<Longrightarrow> 0 \<le> HashBits c \<Longrightarrow> HashBits c < 31 \<Longrightarrow> base_inv c s \<Longrightarrow>
   ft \<or> tab_ok c s \<Longrightarrow>
   \<exists>e s'. rep_cycles alloc c ft input s = Some (e, s') \<and> (e = FREEARC_OK \<longrightarrow> base_inv c s')"
proof (induction "length input" arbitrary: ft input s rule: less_induct)
  case less
  define Size where "Size = read_size c ft input s"
  define s0 where "s0 = load input Size (Base s) s"
  define s1 where "s1 = (if ft
                      then s0\<lparr>hasharr := replicate (nat (HashSize c)) 0,
                              out := out s0 @ put32 (int (BlockSize c))\<rparr>
                      else s0)"
  note eq = rep_cycles.simps [of alloc c ft input s, folded Size_def, unfolded Let_def,
      folded s0_def, folded s1_def]
  have bi: "base_inv c s" by fact
  have nn: "0 \<le> Base s" "Base s \<le> int (length (buf s))"
    "int (length (buf s)) \<le> int (BlockSize c)"
    "int (length (buf s)) = Base s \<or> int (length (buf s)) = int (BlockSize c)"
    using bi by (simp_all add: base_inv_def)
  have sl: "Size \<le> int (BlockSize c) - Base s" "Size \<le> int (length input)"
    by (simp_all add: Size_def read_size_def)
  show ?case
  proof (cases "Size < 0")
    case True
    then show ?thesis using eq by auto
  next
    case False
    then have s0n: "0 \<le> Size" by simp
    have len0: "int (length (buf s0)) = max (int (length (buf s))) (Base s + Size)"
      unfolding s0_def using nn s0n sl by (intro load_length) simp_all
    have fr0: "ilog s0 = ilog s" "blog s0 = blog s" "last_match s0 = last_match s"
      "last_i s0 = last_i s" "Base s0 = Base s" "hasharr s0 = hasharr s"
      by (simp_all add: s0_def load_def)
    have ci0: "cyc_inv c s0" using bi cyc_inv_frame [OF fr0(1-5), of c]
      by (simp add: base_inv_def)
    have fr1: "ilog s1 = ilog s0" "blog s1 = blog s0" "last_match s1 = last_match s0"
      "last_i s1 = last_i s0" "Base s1 = Base s0" "buf s1 = buf s0"
      by (simp_all add: s1_def)
    have ci1: "cyc_inv c s1" using ci0 cyc_inv_frame [OF fr1(1-5), of c] by simp
    have nn1: "0 \<le> last_i s1" "0 \<le> last_match s1" "0 \<le> Base s1"
      using bi fr0 fr1 by (simp_all add: base_inv_def)
    have bi1: "Size = 0 \<Longrightarrow> base_inv c s1"
      using bi ci1 nn1 len0 fr1 fr0 by (simp add: base_inv_def)
    have bi0: "Size = 0 \<Longrightarrow> base_inv c s0"
      using bi ci0 len0 fr0 by (simp add: base_inv_def)
    show ?thesis
    proof (cases "(ft \<and> HashSize c \<noteq> 0 \<and> \<not> alloc (HashSize c * 4)) \<or> Size = 0")
      case True
      show ?thesis
      proof (cases "Size = 0")
        case z: True
        show ?thesis using eq bi0 [OF z] bi1 [OF z] less.prems(2,3) z by auto
      next
        case nz0: False
        show ?thesis using eq True nz0 False less.prems(2,3) by auto
      qed
    next
      case nz: False
      then have pos: "0 < Size" using s0n by simp
      from less.prems(1) obtain h where hs: "HashSize c = 2 ^ h"
        by (auto simp add: cfg_run_def)
      have tab1: "tab_ok c s1"
      proof (cases ft)
        case True
        then show ?thesis by (simp add: s1_def tab_ok_def hs)
      next
        case False
        then have "tab_ok c s" using less.prems(5) by simp
        then have "tab_ok c s0"
          using len0 fr0 by (auto simp add: tab_ok_def)
        then show ?thesis using False by (simp add: s1_def)
      qed
      have le: "Base s1 + Size \<le> int (BlockSize c)" using sl fr0 fr1 by simp
      have bo: "buf_ok c (Base s1 + Size) s1"
        using len0 nn sl fr0 fr1 s0n by (auto simp add: buf_ok_def max_def)
      from cycle_total [OF less.prems(1) ci1 nn1 tab1 pos le bo] obtain s4 where
        cy: "cycle c Size s1 = Some s4" and bi4: "base_inv c s4" and tab4: "tab_ok c s4"
        by blast
      have lt: "length (drop (nat Size) input) < length input" using pos sl by simp
      have "\<exists>e s'. rep_cycles alloc c False (drop (nat Size) input) s4 = Some (e, s')
          \<and> (e = FREEARC_OK \<longrightarrow> base_inv c s')"
        using tab4 by (intro less.hyps [OF lt less.prems(1,2,3) bi4]) simp
      then show ?thesis
        using eq cy nz False less.prems(2,3) by auto
    qed
  qed
qed

lemma CalcHashSize_pow:
  assumes "0 < CalcHashSize hb bs (2 ^ a)"
  shows "\<exists>h. CalcHashSize hb bs (2 ^ a) = 2 ^ h"
proof (cases "0 < hb")
  case True
  then show ?thesis by (auto simp add: CalcHashSize_def)
next
  case False
  obtain b where b: "roundup_to_power_of2 (bs div 3 * 2) = 2 ^ b"
    using roundup_to_power_of2_pow by blast
  have m: "max ((2::nat) ^ a) 16 = 2 ^ max a 4"
  proof (cases "a \<le> 4")
    case True
    then have "(2::nat) ^ a \<le> 2 ^ 4" by (intro power_increasing) simp_all
    then show ?thesis using True by (simp add: max_def)
  next
    case False
    then have "(2::nat) ^ 4 \<le> 2 ^ a" by (intro power_increasing) simp_all
    then show ?thesis using False by (simp add: max_def)
  qed
  have e: "CalcHashSize hb bs (2 ^ a) = 2 ^ b div 2 ^ max a 4"
    using False b m by (simp add: CalcHashSize_def)
  show ?thesis
  proof (cases "max a 4 \<le> b")
    case True
    have "(2::nat) ^ (b - max a 4) = 2 ^ b div 2 ^ max a 4"
      using True by (intro power_diff) simp_all
    then have "CalcHashSize hb bs (2 ^ a) = 2 ^ (b - max a 4)" using e by simp
    then show ?thesis by (rule exI)
  next
    case False
    then have "b < max a 4" by linarith
    then have "(2::nat) ^ b < 2 ^ max a 4" by (intro power_strict_increasing) simp_all
    then have "(2::nat) ^ b div 2 ^ max a 4 = 0" by (rule div_less)
    then show ?thesis using assms e by simp
  qed
qed

lemma cfg_run_derive:
  assumes hs: "0 < HashSize (derive p)" and am: "1 \<le> Amplifier p"
  shows "cfg_run (derive p)"
proof -
  have ok: "cfg_ok (derive p)" by (rule cfg_ok_derive)
  then obtain a b where ab: "k (derive p) = 2 ^ a" "L (derive p) = 2 ^ b"
    by (auto simp add: cfg_ok_def)
  have na: "nat (k (derive p)) = 2 ^ a" using ab by (simp add: nat_power_eq)
  have hd: "HashSize (derive p)
      = int (CalcHashSize (nat (HashBits p)) (BlockSize p) (nat (k (derive p))))"
    by (simp add: derive_def Let_def params.defs)
  have "0 < CalcHashSize (nat (HashBits p)) (BlockSize p) (2 ^ a)"
    using hs hd na by simp
  from CalcHashSize_pow [OF this] obtain h where
    "CalcHashSize (nat (HashBits p)) (BlockSize p) (2 ^ a) = 2 ^ h" by blast
  then have "HashSize (derive p) = 2 ^ h" using hd na by simp
  then have h: "\<exists>h. HashSize (derive p) = 2 ^ h" by blast
  have hm: "HashMask (derive p) = HashSize (derive p) - 1"
    by (simp add: derive_def Let_def params.defs)
  have td: "test (derive p) = min (k (derive p) * Amplifier p) (L (derive p))"
    by (simp add: derive_def Let_def params.defs)
  have "(1::int) \<le> 2 ^ a" "(1::int) \<le> 2 ^ b" by simp_all
  moreover have "(1::int) * 1 \<le> 2 ^ a * Amplifier p"
    using am by (intro mult_mono) simp_all
  ultimately have t: "1 \<le> test (derive p)" using ab td by simp
  show ?thesis using ok h hm t by (simp add: cfg_run_def)
qed

lemma base_inv_init: "cfg_ok c \<Longrightarrow> base_inv c init_state"
  using cyc_inv_init [of c] by (simp add: base_inv_def init_state_def)

lemma finish_defined:
  assumes "base_inv c s"
  shows "\<exists>s'. finish s = Some s'"
proof -
  have "0 \<le> last_match s" "last_match s \<le> Base s" "Base s \<le> int (length (buf s))"
    using assms by (simp_all add: base_inv_def cyc_inv_def)
  then show ?thesis by (simp add: finish_def rd_range_def Let_def)
qed

lemma run_defined:
  assumes hs: "0 < HashSize (derive p)" and am: "1 \<le> Amplifier p"
    and hb: "0 \<le> HashBits p" "HashBits p < 31"
    and sl: "SmallestLen p \<noteq> 0" "MinMatchLen p \<noteq> 0"
  shows "\<exists>e s. rep_compress_run alloc p input = Some (e, s)"
proof -
  have cr: "cfg_run (derive p)" using hs am by (rule cfg_run_derive)
  have ok: "cfg_ok (derive p)" by (rule cfg_ok_derive)
  have hb': "0 \<le> HashBits (derive p)" "HashBits (derive p) < 31"
    using hb by (simp_all add: derive_def Let_def params.defs)
  have s0: "SmallestLen (derive p) \<noteq> 0"
    using sl by (simp add: derive_fields min_def)
  from rep_cycles_total [OF cr hb' base_inv_init [OF ok], of True alloc input]
  obtain e s' where rc: "rep_cycles alloc (derive p) True input init_state = Some (e, s')"
    and bi: "e = FREEARC_OK \<longrightarrow> base_inv (derive p) s'"
    by auto
  show ?thesis
  proof (cases "e = FREEARC_OK")
    case True
    then obtain s'' where "finish s' = Some s''" using finish_defined bi by blast
    then show ?thesis using rc True s0 by (simp add: rep_compress_run_def Let_def)
  next
    case False
    then show ?thesis using rc s0 by (simp add: rep_compress_run_def Let_def)
  qed
qed

lemma cycle_first_nodup:
  assumes cr: "cfg_run c" and ci: "cyc_inv c s1"
    and z: "Base s1 = 0" "last_i s1 = 0" "last_match s1 = 0" "blog s1 = []"
    and tab: "tab_ok c s1" and sz: "0 < Size" and lt: "Size < int (BlockSize c)"
    and len: "int (length (buf s1)) = Size"
    and nd: "\<not> has_dup (buf s1) (nat (SmallestLen c))" "0 < SmallestLen c"
      "SmallestLen c \<le> MinMatchLen c"
  shows "\<exists>s4 n. cycle c Size s1 = Some s4 \<and> 0 \<le> n \<and> n \<le> Size \<and> buf s4 = buf s1
           \<and> Base s4 = Size \<and> last_match s4 = n
           \<and> out s4 = out s1 @ put32 (8 + n) @ put32 0 @ put32 n @ take (nat n) (buf s1)
           \<and> length (blog s4) = 1 \<and> blk_lens (hd (blog s4)) = []"
proof -
  have ok: "cfg_ok c" using cr by (simp add: cfg_run_def)
  have "0 + int (nat (min (L c) Size)) \<le> int (length (buf s1))"
    using len sz by (simp add: min_def)
  from hash_init_defined [OF _ this, of "cPOWER_PRIME_L c" 0] obtain h where
    hi: "hash_init (cPOWER_PRIME_L c) (buf s1) (nat (min (L c) Size)) 0 0 = Some h" by auto
  define s2 where "s2 = s1\<lparr>hash := h\<rparr>"
  define r where "r = s2\<lparr>literals := 0, lens := [], offsets := [], datalens := [],
                   dataOffsets := [], mlog := []\<rparr>"
  have inv2: "cyc_inv c s2" using ci by (simp add: s2_def cyc_inv_def)
  have si: "scan_inv c Size 0 r"
    using inv2 z by (simp add: scan_inv_def staged_def r_def cyc_inv_def s2_def)
  have bo: "buf_ok c Size r" using len lt by (simp add: buf_ok_def r_def s2_def)
  have ri: "run_inv c Size 0 r"
    using si tab bo by (simp add: run_inv_def r_def s2_def tab_ok_def)
  have Ld: "L c dvd last_i r" and l0: "0 \<le> last_i r" and ll: "last_i r \<le> Size"
    using z sz by (simp_all add: r_def s2_def)
  have ndr: "nodup c Size r" using nd len by (simp add: nodup_def r_def s2_def)
  from scan_loop_total [OF cr ri Ld l0] ndr obtain s3 where
    sc: "scan_loop c Size r = Some s3" and ri3: "run_inv c Size 0 s3"
    and sf: "scan_frame r s3" and l3: "0 \<le> last_i s3"
    and ml: "mlog s3 = mlog r" "last_match s3 = last_match r"
    by blast
  note a = scan_loop_inv [OF sc ok Ld ll si]
  have l3': "last_i s3 \<le> Size" using a by simp
  have f3: "Base s3 = 0" "buf s3 = buf s1" "out s3 = out s1" "blog s3 = []"
    using sf z by (simp_all add: scan_frame_def r_def s2_def)
  have m3: "mlog s3 = []" "last_match s3 = 0" using ml z by (simp_all add: r_def s2_def)
  have st3: "staged c Size 0 s3" using ri3 by (simp add: run_inv_def scan_inv_def)
  have e3: "lens s3 = []" "offsets s3 = []" "datalens s3 = []" "dataOffsets s3 = []"
    "literals s3 = 0"
    using st3 m3 by (simp_all add: staged_def)
  define n where "n = last_i s3"
  have rd: "rd_range (buf s1) 0 n = Some (take (nat n) (buf s1))"
    using l3 l3' len by (simp add: rd_range_def n_def)
  define s4 where "s4 = s3\<lparr>Base := Size, dataOffsets := [0], datalens := [n], literals := n,
      last_match := n,
      out := out s1 @ put32 (8 + n) @ put32 0 @ put32 n @ take (nat n) (buf s1),
      blog := [\<lparr>blk_first = 0, blk_events = [], blk_lens = [], blk_offsets = [],
                 blk_datalens = [n], blk_dataOffsets = [0], blk_last = n, blk_Base = Size\<rparr>]\<rparr>"
  have be: "block_end c Size 0 s3 = Some s4"
    using lt l3 rd
    by (simp add: block_end_def Let_def f3 m3 e3 n_def [symmetric] s4_def)
  have cy: "cycle c Size s1 = Some s4"
    using hi sc be z by (simp add: cycle_def r_def s2_def)
  have "cycle c Size s1 = Some s4 \<and> 0 \<le> n \<and> n \<le> Size \<and> buf s4 = buf s1
           \<and> Base s4 = Size \<and> last_match s4 = n
           \<and> out s4 = out s1 @ put32 (8 + n) @ put32 0 @ put32 n @ take (nat n) (buf s1)
           \<and> length (blog s4) = 1 \<and> blk_lens (hd (blog s4)) = []"
    using cy l3 l3' f3 by (simp add: s4_def n_def)
  then show ?thesis by blast
qed

lemma rep_cycles_single:
  assumes cr: "cfg_run c" and hb: "0 \<le> HashBits c" "HashBits c < 31"
    and al: "\<forall>n. alloc n"
    and ne: "X \<noteq> []" and lt: "length X < BlockSize c" and mr: "int (length X) \<le> MAX_READ"
    and nd: "\<not> has_dup X (nat (SmallestLen c))" "0 < SmallestLen c"
      "SmallestLen c \<le> MinMatchLen c"
  shows "\<exists>s n. rep_cycles alloc c True X init_state = Some (FREEARC_OK, s) \<and> n \<le> length X
           \<and> buf s = X \<and> Base s = int (length X) \<and> last_match s = int n
           \<and> out s = put32 (int (BlockSize c)) @ put32 (8 + int n) @ put32 0 @ put32 (int n)
                       @ take n X
           \<and> length (blog s) = 1 \<and> blk_lens (hd (blog s)) = []"
proof -
  have ok: "cfg_ok c" using cr by (simp add: cfg_run_def)
  define Size where "Size = int (length X)"
  have sz: "0 < Size" using ne by (simp add: Size_def)
  have rs: "read_size c True X init_state = Size"
    using lt mr by (simp add: read_size_def init_state_def Size_def)
  define s1 where "s1 = init_state\<lparr>buf := X, hasharr := replicate (nat (HashSize c)) 0,
      out := put32 (int (BlockSize c))\<rparr>"
  have ld: "load X Size 0 init_state = init_state\<lparr>buf := X\<rparr>"
    by (simp add: load_def init_state_def Size_def)
  have oi: "out init_state = []" "Base init_state = 0" by (simp_all add: init_state_def)
  have e1: "rep_cycles alloc c True X init_state
      = do { s4 \<leftarrow> cycle c Size s1; rep_cycles alloc c False (drop (nat Size) X) s4 }"
    using hb al sz oi
    by (subst rep_cycles.simps) (simp add: rs ld Let_def s1_def)
  have ci: "cyc_inv c s1"
    using cyc_inv_init [OF ok] by (simp add: cyc_inv_def s1_def init_state_def)
  from cr obtain h where hs: "HashSize c = 2 ^ h" by (auto simp add: cfg_run_def)
  have tab: "tab_ok c s1" by (simp add: tab_ok_def s1_def hs)
  have z: "Base s1 = 0" "last_i s1 = 0" "last_match s1 = 0" "blog s1 = []"
    by (simp_all add: s1_def init_state_def)
  have b1: "buf s1 = X" "out s1 = put32 (int (BlockSize c))" by (simp_all add: s1_def)
  have "\<exists>s4 n. cycle c Size s1 = Some s4 \<and> 0 \<le> n \<and> n \<le> Size \<and> buf s4 = buf s1
           \<and> Base s4 = Size \<and> last_match s4 = n
           \<and> out s4 = out s1 @ put32 (8 + n) @ put32 0 @ put32 n @ take (nat n) (buf s1)
           \<and> length (blog s4) = 1 \<and> blk_lens (hd (blog s4)) = []"
    using lt nd by (intro cycle_first_nodup [OF cr ci z tab sz]) (simp_all add: b1 Size_def)
  then obtain s4 n where cy: "cycle c Size s1 = Some s4" and n: "0 \<le> n" "n \<le> Size"
    and f4: "buf s4 = X" "Base s4 = Size" "last_match s4 = n"
      "out s4 = put32 (int (BlockSize c)) @ put32 (8 + n) @ put32 0 @ put32 n @ take (nat n) X"
      "length (blog s4) = 1" "blk_lens (hd (blog s4)) = []"
    unfolding b1 by blast
  have rs2: "read_size c False [] s4 = 0"
    using lt by (simp add: read_size_def f4 Size_def MAX_READ_def)
  have ld2: "load [] 0 (Base s4) s4 = s4" by (simp add: load_def)
  have e2: "rep_cycles alloc c False [] s4 = Some (FREEARC_OK, s4)"
    by (subst rep_cycles.simps) (simp add: rs2 ld2 Let_def)
  have e3: "rep_cycles alloc c True X init_state = Some (FREEARC_OK, s4)"
    using e1 cy e2 by (simp add: Size_def)
  have "rep_cycles alloc c True X init_state = Some (FREEARC_OK, s4) \<and> nat n \<le> length X
           \<and> buf s4 = X \<and> Base s4 = int (length X) \<and> last_match s4 = int (nat n)
           \<and> out s4 = put32 (int (BlockSize c)) @ put32 (8 + int (nat n)) @ put32 0
                        @ put32 (int (nat n)) @ take (nat n) X
           \<and> length (blog s4) = 1 \<and> blk_lens (hd (blog s4)) = []"
    using e3 n f4 by (simp add: Size_def)
  then show ?thesis by blast
qed

text \<open>
  Claim C9, as amended. Let the input \<open>X\<close> be not empty, shorter than \<open>BlockSize\<close>, no
  longer than \<^verbatim>\<open>MAX_READ\<close>, and without a duplication of the length \<open>SmallestLen\<close>
  that the function uses (the smaller of the arguments \<open>SmallestLen\<close> and
  \<open>MinMatchLen\<close>), which is positive. With \<open>Amplifier \<ge> 1\<close>, a hash table that has at
  least one entry and allocations that succeed, the encoder returns
  \<^verbatim>\<open>FREEARC_OK\<close>, has written exactly one block in the main loop, this block holds
  no match, and the stream is the header, this block with one literal run of the first
  \<open>n\<close> bytes, the last block with no match and the remaining bytes, and the end mark
  \<open>0\<close>.
\<close>

theorem single_literal_block:
  assumes "X \<noteq> []" and "length X < BlockSize p" and "int (length X) \<le> MAX_READ"
    and "0 < min (SmallestLen p) (MinMatchLen p)"
    and "\<not> has_dup X (nat (min (SmallestLen p) (MinMatchLen p)))"
    and "1 \<le> Amplifier p" and "0 \<le> HashBits p" and "HashBits p < 31"
    and "0 < HashSize (derive p)" and "\<forall>n. alloc n"
  shows "\<exists>s n. rep_compress_run alloc p X = Some (FREEARC_OK, s) \<and> n \<le> length X
           \<and> length (blog s) = 1 \<and> blk_lens (hd (blog s)) = []
           \<and> out s = put32 (int (BlockSize p))
                       @ put32 (8 + int n) @ put32 0 @ put32 (int n) @ take n X
                       @ put32 (8 + int (length X - n)) @ put32 0 @ put32 (int (length X - n))
                       @ drop n X
                       @ put32 0"
proof -
  have cr: "cfg_run (derive p)" using assms(9,6) by (rule cfg_run_derive)
  have df: "HashBits (derive p) = HashBits p" "BlockSize (derive p) = BlockSize p"
    "SmallestLen (derive p) = min (SmallestLen p) (MinMatchLen p)"
    "MinMatchLen (derive p) = MinMatchLen p"
    by (simp_all add: derive_def Let_def params.defs min_def)
  have "\<exists>s n. rep_cycles alloc (derive p) True X init_state = Some (FREEARC_OK, s)
           \<and> n \<le> length X
           \<and> buf s = X \<and> Base s = int (length X) \<and> last_match s = int n
           \<and> out s = put32 (int (BlockSize (derive p))) @ put32 (8 + int n) @ put32 0
                       @ put32 (int n) @ take n X
           \<and> length (blog s) = 1 \<and> blk_lens (hd (blog s)) = []"
    using assms by (intro rep_cycles_single [OF cr]) (simp_all add: df)
  then obtain s n where rc: "rep_cycles alloc (derive p) True X init_state = Some (FREEARC_OK, s)"
    and n: "n \<le> length X"
    and f: "buf s = X" "Base s = int (length X)" "last_match s = int n"
      "out s = put32 (int (BlockSize p)) @ put32 (8 + int n) @ put32 0
                       @ put32 (int n) @ take n X"
      "length (blog s) = 1" "blk_lens (hd (blog s)) = []"
    unfolding df by blast
  define s' where "s' = s\<lparr>out := out s @ put32 (8 + int (length X - n)) @ put32 0
      @ put32 (int (length X - n)) @ drop n X @ put32 0\<rparr>"
  have fi: "finish s = Some s'"
    using n by (simp add: finish_def Let_def rd_range_def f s'_def of_nat_diff)
  have s0: "min (SmallestLen p) (MinMatchLen p) \<noteq> 0" using assms(4) by linarith
  have run: "rep_compress_run alloc p X = Some (FREEARC_OK, s')"
    using s0 assms(10) rc fi by (simp add: rep_compress_run_def Let_def df)
  have "rep_compress_run alloc p X = Some (FREEARC_OK, s') \<and> n \<le> length X
           \<and> length (blog s') = 1 \<and> blk_lens (hd (blog s')) = []
           \<and> out s' = put32 (int (BlockSize p))
                       @ put32 (8 + int n) @ put32 0 @ put32 (int n) @ take n X
                       @ put32 (8 + int (length X - n)) @ put32 0 @ put32 (int (length X - n))
                       @ drop n X
                       @ put32 0"
    using run n f by (simp add: s'_def)
  then show ?thesis by blast
qed

lemma distinct_no_dup:
  assumes "distinct X" and "0 < n"
  shows "\<not> has_dup X n"
proof
  assume "has_dup X n"
  then obtain s d where sd: "1 \<le> d" "d \<le> s" "s + n \<le> length X"
    and eq: "\<forall>j\<in>{0..<n}. X ! (s + j) = X ! (s + j - d)"
    by (auto simp add: has_dup_def)
  have "X ! (s + 0) = X ! (s + 0 - d)" using eq assms(2) by (intro bspec [OF eq]) simp
  then have "X ! s = X ! (s - d)" by simp
  moreover have "s < length X" "s - d < length X" using sd assms(2) by simp_all
  ultimately have "s = s - d" using assms(1) by (simp add: nth_eq_iff_index_eq)
  then show False using sd by simp
qed

theorem single_literal_block_witness:
  "\<not> has_dup [1, 2, 3, 4, 5, 6, 7, 8, 9, 10] 4
   \<and> (\<exists>s n. rep_compress_run alloc_ok (mkparams 64 0 4 0 4 4 1) [1, 2, 3, 4, 5, 6, 7, 8, 9, 10]
               = Some (FREEARC_OK, s)
           \<and> n \<le> 10 \<and> length (blog s) = 1 \<and> blk_lens (hd (blog s)) = []
           \<and> out s = put32 64
                       @ put32 (8 + int n) @ put32 0 @ put32 (int n)
                       @ take n [1, 2, 3, 4, 5, 6, 7, 8, 9, 10]
                       @ put32 (8 + int (10 - n)) @ put32 0 @ put32 (int (10 - n))
                       @ drop n [1, 2, 3, 4, 5, 6, 7, 8, 9, 10]
                       @ put32 0)"
proof -
  define X :: "byte list" where "X = [1, 2, 3, 4, 5, 6, 7, 8, 9, 10]"
  define P where "P = mkparams 64 0 4 0 4 4 1"
  have nd: "\<not> has_dup X 4" by (rule distinct_no_dup) (simp_all add: X_def)
  have hs: "0 < HashSize (derive P)" unfolding P_def by code_simp
  have al: "\<forall>n. alloc_ok n" by (simp add: alloc_ok_def)
  have mr: "int (length X) \<le> MAX_READ" by (simp add: MAX_READ_def X_def)
  have ne: "X \<noteq> []" and lx: "length X = 10" by (simp_all add: X_def)
  have pf: "BlockSize P = 64" "SmallestLen P = 4" "MinMatchLen P = 4" "Amplifier P = 1"
    "HashBits P = 4"
    by (simp_all add: P_def mkparams_def)
  have "\<exists>s n. rep_compress_run alloc_ok P X = Some (FREEARC_OK, s) \<and> n \<le> length X
           \<and> length (blog s) = 1 \<and> blk_lens (hd (blog s)) = []
           \<and> out s = put32 (int (BlockSize P))
                       @ put32 (8 + int n) @ put32 0 @ put32 (int n) @ take n X
                       @ put32 (8 + int (length X - n)) @ put32 0 @ put32 (int (length X - n))
                       @ drop n X
                       @ put32 0"
    using nd hs al mr ne by (intro single_literal_block) (simp_all add: pf lx)
  then show ?thesis using nd unfolding pf lx unfolding X_def P_def by simp
qed

text \<open>
  Claim C9 as stated fails for the empty input: it is shorter than \<open>BlockSize\<close> and has
  no duplication, and the main loop writes no block at all before the last block and the
  end mark.
\<close>

theorem single_literal_block_counterexample:
  "length ([] :: byte list) < BlockSize (mkparams 64 0 4 0 4 4 1)
   \<and> \<not> has_dup [] (nat (SmallestLen (mkparams 64 0 4 0 4 4 1)))
   \<and> map_option (length \<circ> blog \<circ> snd) (rep_compress_run alloc_ok (mkparams 64 0 4 0 4 4 1) [])
       = Some 0"
proof -
  have "map_option (length \<circ> blog \<circ> snd)
      (rep_compress_run alloc_ok (mkparams 64 0 4 0 4 4 1) []) = Some 0"
    by code_simp
  then show ?thesis by (simp add: has_dup_def mkparams_def)
qed

end
